theory Spec2Isabelle
  imports Complex_Main "HOL-Library.Sublist"
begin

section \<open>IoT sensor data generator (iot-data-stream.py)\<close>

text \<open>
  The generator is embedded with explicit state passing. Python floats are modelled by
  exact reals; the pseudorandom module and the wall clock are an explicit \<open>world\<close> that
  every call takes and returns. Exceptions are values of type \<open>error\<close>.
\<close>

subsection \<open>Registries\<close>

text \<open>One entry of \<open>SENSOR_TYPES\<close>. The key \<open>'decay'\<close> is optional in the source.\<close>

record sensor_config =
  cfg_unit :: string
  cfg_min :: real
  cfg_max :: real
  precision :: nat
  drift_factor :: real
  decay :: "bool option"

definition SENSOR_TYPES_items :: "(string \<times> sensor_config) list" where
  "SENSOR_TYPES_items =
    [(''temperature'',
        \<lparr>cfg_unit = [CHR 0xC2, CHR 0xB0, CHR ''C''], cfg_min = - 10, cfg_max = 45,
         precision = 1, drift_factor = 1 / 10, decay = None\<rparr>),
     (''humidity'',
        \<lparr>cfg_unit = ''%'', cfg_min = 0, cfg_max = 100,
         precision = 1, drift_factor = 2, decay = None\<rparr>),
     (''pressure'',
        \<lparr>cfg_unit = ''hPa'', cfg_min = 970, cfg_max = 1050,
         precision = 1, drift_factor = 1 / 2, decay = None\<rparr>),
     (''light_level'',
        \<lparr>cfg_unit = ''lux'', cfg_min = 0, cfg_max = 10000,
         precision = 0, drift_factor = 50, decay = None\<rparr>),
     (''air_quality'',
        \<lparr>cfg_unit = ''PM2.5'', cfg_min = 0, cfg_max = 500,
         precision = 1, drift_factor = 5, decay = None\<rparr>),
     (''battery_level'',
        \<lparr>cfg_unit = ''%'', cfg_min = 0, cfg_max = 100,
         precision = 0, drift_factor = 1 / 10, decay = Some True\<rparr>)]"

definition SENSOR_TYPES :: "string \<rightharpoonup> sensor_config" where
  "SENSOR_TYPES = map_of SENSOR_TYPES_items"

text \<open>\<open>sensor_config.get('decay', False)\<close>\<close>

definition get_decay :: "sensor_config \<Rightarrow> bool" where
  "get_decay cfg = (case decay cfg of None \<Rightarrow> False | Some b \<Rightarrow> b)"

record location =
  loc_id :: string
  loc_name :: string
  lat :: real
  lon :: real

definition LOCATIONS :: "location list" where
  "LOCATIONS =
    [\<lparr>loc_id = ''warehouse_a'', loc_name = ''Warehouse A'', lat = 476062 / 10000, lon = - (1223321 / 10000)\<rparr>,
     \<lparr>loc_id = ''warehouse_b'', loc_name = ''Warehouse B'', lat = 476152 / 10000, lon = - (1223447 / 10000)\<rparr>,
     \<lparr>loc_id = ''office_main'', loc_name = ''Main Office'', lat = 476205 / 10000, lon = - (1223493 / 10000)\<rparr>,
     \<lparr>loc_id = ''production_floor'', loc_name = ''Production Floor'', lat = 476170 / 10000, lon = - (1223377 / 10000)\<rparr>,
     \<lparr>loc_id = ''storage_cold'', loc_name = ''Cold Storage'', lat = 476180 / 10000, lon = - (1223399 / 10000)\<rparr>]"

definition DEVICE_STATUSES :: "string list" where
  "DEVICE_STATUSES = [''operational'', ''maintenance'', ''warning'', ''error'']"

definition STATUS_WEIGHTS :: "real list" where
  "STATUS_WEIGHTS = [95 / 100, 3 / 100, 15 / 1000, 5 / 1000]"

subsection \<open>The world: pseudorandom stream and clock\<close>

text \<open>
  One entry of the log per call into the \<open>random\<close> module, in call order, with the
  arguments of the call. The log is ghost state: no function reads it.
\<close>

datatype rand_call = Random | Uniform real real | Choices | Choice nat

text \<open>
  \<open>stream\<close> is the sequence of values that \<open>random.random()\<close> returns, each in
  \<open>[0, 1)\<close>; \<open>pos\<close> counts the values used so far. \<open>clock\<close> is the sequence of strings
  that \<open>datetime.datetime.now().isoformat()\<close> returns.
\<close>

record world =
  stream :: "nat \<Rightarrow> real"
  pos :: nat
  log :: "rand_call list"
  clock :: "nat \<Rightarrow> string"
  clock_pos :: nat

definition unit_stream :: "world \<Rightarrow> bool" where
  "unit_stream w = (\<forall>i. 0 \<le> stream w i \<and> stream w i < 1)"

definition draw :: "rand_call \<Rightarrow> world \<Rightarrow> real \<times> world" where
  "draw c w = (stream w (pos w), w\<lparr>pos := Suc (pos w), log := log w @ [c]\<rparr>)"

text \<open>\<open>random.random()\<close>\<close>

definition random :: "world \<Rightarrow> real \<times> world" where
  "random w = draw Random w"

text \<open>\<open>random.uniform(a, b)\<close> is \<open>a + (b - a) * random()\<close>.\<close>

definition uniform :: "real \<Rightarrow> real \<Rightarrow> world \<Rightarrow> real \<times> world" where
  "uniform a b w = (case draw (Uniform a b) w of (u, w') \<Rightarrow> (a + (b - a) * u, w'))"

datatype error = KeyError | IndexError

text \<open>
  \<open>random.choice(seq)\<close> raises \<open>IndexError\<close> on an empty sequence, before any value is
  used. On a sequence of \<open>n\<close> items it returns \<open>seq[i]\<close> for an index \<open>i\<close> below \<open>n\<close>
  that the generator determines; the model takes the index \<open>\<lfloor>u * n\<rfloor>\<close> of one value
  \<open>u\<close> of the stream.
\<close>

definition choice :: "'a list \<Rightarrow> world \<Rightarrow> (error + 'a) \<times> world" where
  "choice seq w =
    (if seq = [] then (Inl IndexError, w)
     else case draw (Choice (length seq)) w of (u, w') \<Rightarrow>
       (let i = nat \<lfloor>u * real (length seq)\<rfloor>
        in if i < length seq then (Inr (seq ! i), w') else (Inl IndexError, w')))"

text \<open>\<open>itertools.accumulate(weights)\<close>\<close>

fun accumulate :: "real \<Rightarrow> real list \<Rightarrow> real list" where
  "accumulate acc [] = []"
| "accumulate acc (x # xs) = (acc + x) # accumulate (acc + x) xs"

text \<open>\<open>bisect.bisect(a, x, 0, hi)\<close> on an ascending list.\<close>

definition bisect :: "real list \<Rightarrow> real \<Rightarrow> nat \<Rightarrow> nat" where
  "bisect a x hi = length (takeWhile (\<lambda>c. c \<le> x) (take hi a))"

text \<open>
  \<open>random.choices(population, weights=weights)[0]\<close>: one value of the stream, scaled
  by the total weight and located in the cumulative weights.
\<close>

definition choices :: "string list \<Rightarrow> real list \<Rightarrow> world \<Rightarrow> string \<times> world" where
  "choices population weights w =
    (case draw Choices w of (u, w') \<Rightarrow>
      (let cum_weights = accumulate 0 weights;
           total = last cum_weights;
           hi = length population - 1
       in (population ! bisect cum_weights (u * total) hi, w')))"

text \<open>\<open>datetime.datetime.now().isoformat()\<close>\<close>

definition now_isoformat :: "world \<Rightarrow> string \<times> world" where
  "now_isoformat w = (clock w (clock_pos w), w\<lparr>clock_pos := Suc (clock_pos w)\<rparr>)"

subsection \<open>Rounding\<close>

text \<open>
  \<open>round(x, ndigits)\<close> on a float: the nearest multiple of \<open>10 ^ -ndigits\<close>, a tie going
  to the even multiple.
\<close>

definition round_half_even :: "real \<Rightarrow> int" where
  "round_half_even y =
    (let f = \<lfloor>y\<rfloor>; r = y - of_int f
     in if r < 1 / 2 then f else if 1 / 2 < r then f + 1 else if even f then f else f + 1)"

definition py_round :: "real \<Rightarrow> nat \<Rightarrow> real" where
  "py_round x ndigits = of_int (round_half_even (x * 10 ^ ndigits)) / 10 ^ ndigits"

subsection \<open>SensorDevice\<close>

record device =
  device_id :: string
  location :: location
  sensor_types :: "string list"
  current_values :: "string \<rightharpoonup> real"

text \<open>The loop of \<open>SensorDevice.__init__\<close>: a kind that is not registered is passed over.\<close>

fun init_values :: "string list \<Rightarrow> (string \<rightharpoonup> real) \<Rightarrow> world \<Rightarrow> (string \<rightharpoonup> real) \<times> world" where
  "init_values [] cv w = (cv, w)"
| "init_values (sensor_type # rest) cv w =
    (case SENSOR_TYPES sensor_type of
       None \<Rightarrow> init_values rest cv w
     | Some sensor_config \<Rightarrow>
         (case uniform (cfg_min sensor_config) (cfg_max sensor_config) w of
            (v, w') \<Rightarrow> init_values rest (cv(sensor_type \<mapsto> v)) w'))"

definition SensorDevice :: "string \<Rightarrow> location \<Rightarrow> string list \<Rightarrow> world \<Rightarrow> device \<times> world" where
  "SensorDevice did loc kinds w =
    (case init_values kinds Map.empty w of
       (cv, w') \<Rightarrow>
         (\<lparr>device_id = did, location = loc, sensor_types = kinds, current_values = cv\<rparr>, w'))"

record sensor_reading =
  reading_value :: real
  reading_unit :: string

record coordinates =
  latitude :: real
  longitude :: real

record reading =
  r_device_id :: string
  timestamp :: string
  location_id :: string
  location_name :: string
  coords :: coordinates
  readings :: "string \<rightharpoonup> sensor_reading"
  status :: string

text \<open>
  The drift loop of \<open>generate_reading\<close>. It returns the error that stopped it, if any,
  with the values persisted and the readings built up to that point.
\<close>

fun drift_loop ::
  "string list \<Rightarrow> (string \<rightharpoonup> real) \<Rightarrow> (string \<rightharpoonup> sensor_reading) \<Rightarrow> world \<Rightarrow>
     error option \<times> (string \<rightharpoonup> real) \<times> (string \<rightharpoonup> sensor_reading) \<times> world" where
  "drift_loop [] cv rd w = (None, cv, rd, w)"
| "drift_loop (sensor_type # rest) cv rd w =
    (case SENSOR_TYPES sensor_type of
       None \<Rightarrow> drift_loop rest cv rd w
     | Some sensor_config \<Rightarrow>
         (case uniform (- drift_factor sensor_config) (drift_factor sensor_config) w of
            (drift0, w') \<Rightarrow>
              (let drift = (if get_decay sensor_config then \<bar>drift0\<bar> * - 1 else drift0)
               in case cv sensor_type of
                    None \<Rightarrow> (Some KeyError, cv, rd, w')
                  | Some cur \<Rightarrow>
                      (let new_value0 = cur + drift;
                           new_value1 = max (cfg_min sensor_config) (min new_value0 (cfg_max sensor_config));
                           new_value = py_round new_value1 (precision sensor_config)
                       in drift_loop rest (cv(sensor_type \<mapsto> new_value))
                            (rd(sensor_type \<mapsto>
                               \<lparr>reading_value = new_value, reading_unit = cfg_unit sensor_config\<rparr>))
                            w'))))"

text \<open>The construction of \<open>reading_data\<close>, with its two jitter draws.\<close>

definition reading_data ::
  "device \<Rightarrow> string \<Rightarrow> (string \<rightharpoonup> sensor_reading) \<Rightarrow> string \<Rightarrow> world \<Rightarrow> reading \<times> world" where
  "reading_data dev ts rd st w =
    (case uniform (- (1 / 10000)) (1 / 10000) w of
       (j1, w1) \<Rightarrow>
         (case uniform (- (1 / 10000)) (1 / 10000) w1 of
            (j2, w2) \<Rightarrow>
              (\<lparr>r_device_id = device_id dev, timestamp = ts,
                location_id = loc_id (location dev), location_name = loc_name (location dev),
                coords = \<lparr>latitude = lat (location dev) + j1, longitude = lon (location dev) + j2\<rparr>,
                readings = rd, status = st\<rparr>, w2)))"

text \<open>The anomaly branch: the readings after it, or the error that it raised.\<close>

definition anomaly ::
  "string list \<Rightarrow> (string \<rightharpoonup> sensor_reading) \<Rightarrow> world \<Rightarrow>
     (error + (string \<rightharpoonup> sensor_reading)) \<times> world" where
  "anomaly kinds rd w =
    (case random w of
       (a, w1) \<Rightarrow>
         if a < 1 / 100 then
           (case choice kinds w1 of
              (Inl e, w2) \<Rightarrow> (Inl e, w2)
            | (Inr anomaly_sensor, w2) \<Rightarrow>
                (case rd anomaly_sensor of
                   None \<Rightarrow> (Inr rd, w2)
                 | Some r \<Rightarrow>
                     (case random w2 of
                        (b, w3) \<Rightarrow>
                          (case SENSOR_TYPES anomaly_sensor of
                             None \<Rightarrow> (Inl KeyError, w3)
                           | Some cfg \<Rightarrow>
                               if b < 1 / 2
                               then (Inr (rd(anomaly_sensor \<mapsto> r\<lparr>reading_value := cfg_max cfg\<rparr>)), w3)
                               else (Inr (rd(anomaly_sensor \<mapsto> r\<lparr>reading_value := cfg_min cfg\<rparr>)), w3)))))
         else (Inr rd, w1))"

text \<open>
  \<open>SensorDevice.generate_reading\<close>. The device is returned in every case: the values
  that the drift loop persisted stay persisted when a later statement raises.
\<close>

definition generate_reading :: "device \<Rightarrow> world \<Rightarrow> (error + reading) \<times> device \<times> world" where
  "generate_reading dev w =
    (case now_isoformat w of
       (ts, w0) \<Rightarrow>
         (case drift_loop (sensor_types dev) (current_values dev) Map.empty w0 of
            (Some e, cv, rd, w1) \<Rightarrow> (Inl e, dev\<lparr>current_values := cv\<rparr>, w1)
          | (None, cv, rd, w1) \<Rightarrow>
              (case choices DEVICE_STATUSES STATUS_WEIGHTS w1 of
                 (st, w2) \<Rightarrow>
                   (case anomaly (sensor_types dev) rd w2 of
                      (Inl e, w3) \<Rightarrow> (Inl e, dev\<lparr>current_values := cv\<rparr>, w3)
                    | (Inr rd', w3) \<Rightarrow>
                        (case reading_data dev ts rd' st w3 of
                           (r, w4) \<Rightarrow> (Inr r, dev\<lparr>current_values := cv\<rparr>, w4))))))"

text \<open>\<open>n\<close> calls of \<open>generate_reading\<close> on one device, one after the other.\<close>

fun ticks :: "nat \<Rightarrow> device \<Rightarrow> world \<Rightarrow> device \<times> world" where
  "ticks 0 dev w = (dev, w)"
| "ticks (Suc n) dev w =
    (case generate_reading dev w of (res, dev', w') \<Rightarrow> ticks n dev' w')"

subsection \<open>DataGenerator.generate_batch\<close>

text \<open>
  The loop of \<open>generate_batch\<close>: the devices already visited, those still to visit, and
  the list \<open>readings\<close> that the loop appends to. An exception of \<open>generate_reading\<close>
  leaves the loop.
\<close>

fun batch_loop ::
  "device list \<Rightarrow> device list \<Rightarrow> reading list \<Rightarrow> world \<Rightarrow>
     (error + reading list) \<times> device list \<times> world" where
  "batch_loop visited [] rs w = (Inr rs, visited, w)"
| "batch_loop visited (d # ds) rs w =
    (case random w of
       (u, w1) \<Rightarrow>
         if u < 98 / 100 then
           (case generate_reading d w1 of
              (Inl e, d', w2) \<Rightarrow> (Inl e, visited @ d' # ds, w2)
            | (Inr r, d', w2) \<Rightarrow> batch_loop (visited @ [d']) ds (rs @ [r]) w2)
         else batch_loop (visited @ [d]) ds rs w1)"

definition generate_batch :: "device list \<Rightarrow> world \<Rightarrow> (error + reading list) \<times> device list \<times> world" where
  "generate_batch devices w = batch_loop [] devices [] w"


section \<open>Dashboard deserialisation (iot_dashboard.py)\<close>

text \<open>
  The values of a deserialised DynamoDB item, and the values that the conversion puts in
  their place. \<open>'d\<close> is the type of \<open>datetime\<close> objects; \<open>DecimalV\<close> is
  \<open>decimal.Decimal\<close>, restricted to finite numbers.
\<close>

datatype 'd item =
    NoneV
  | BoolV bool
  | StrV string
  | BytesV string
  | DecimalV real
  | IntV int
  | FloatV real
  | DatetimeV 'd
  | ListV "'d item list"
  | DictV "(string \<times> 'd item) list"
  | SetV "'d item list"

text \<open>
  \<open>int(v)\<close> truncates towards zero. \<open>v % 1\<close> is what the truncation leaves; in the
  default context of the \<open>decimal\<close> module (28 digits) it raises
  \<open>decimal.InvalidOperation\<close> when the integer part of \<open>v\<close> has more than 28 digits.
\<close>

datatype decimal_error = InvalidOperation

definition int_of_decimal :: "real \<Rightarrow> int" where
  "int_of_decimal v = (if 0 \<le> v then \<lfloor>v\<rfloor> else \<lceil>v\<rceil>)"

definition decimal_mod_1 :: "real \<Rightarrow> decimal_error + real" where
  "decimal_mod_1 v =
    (if 10 ^ 28 \<le> \<bar>v\<bar> then Inl InvalidOperation else Inr (v - of_int (int_of_decimal v)))"

text \<open>The results of converting the elements of a list, up to the first that raised.\<close>

fun collect :: "('e + 'a) list \<Rightarrow> 'e + 'a list" where
  "collect [] = Inr []"
| "collect (Inl e # rs) = Inl e"
| "collect (Inr x # rs) = (case collect rs of Inl e \<Rightarrow> Inl e | Inr xs \<Rightarrow> Inr (x # xs))"

text \<open>
  \<open>convert_dynamodb_item\<close>. The parser \<open>datetime.fromisoformat\<close> is a parameter:
  \<open>None\<close> stands for its \<open>ValueError\<close>, which the function catches. An exception of
  \<open>v % 1\<close> is not caught and leaves the function.
\<close>

fun convert_dynamodb_item :: "(string \<Rightarrow> 'd option) \<Rightarrow> 'd item \<Rightarrow> decimal_error + 'd item" where
  "convert_dynamodb_item fromisoformat (ListV xs) =
     (case collect (map (convert_dynamodb_item fromisoformat) xs) of
        Inl e \<Rightarrow> Inl e
      | Inr ys \<Rightarrow> Inr (ListV ys))"
| "convert_dynamodb_item fromisoformat (DictV kvs) =
     (case collect (map (\<lambda>(k, v).
        (case (case v of
                 DecimalV d \<Rightarrow>
                   (case decimal_mod_1 d of
                      Inl e \<Rightarrow> Inl e
                    | Inr m \<Rightarrow> if m = 0 then Inr (IntV (int_of_decimal d)) else Inr (FloatV d))
               | StrV s \<Rightarrow>
                   if k = ''timestamp''
                   then Inr (case fromisoformat s of Some t \<Rightarrow> DatetimeV t | None \<Rightarrow> StrV s)
                   else convert_dynamodb_item fromisoformat v
               | _ \<Rightarrow> convert_dynamodb_item fromisoformat v) of
           Inl e \<Rightarrow> Inl e
         | Inr v' \<Rightarrow> Inr (k, v'))) kvs) of
        Inl e \<Rightarrow> Inl e
      | Inr new_dict \<Rightarrow> Inr (DictV new_dict))"
| "convert_dynamodb_item fromisoformat x = Inr x"

text \<open>A \<open>Decimal\<close> occurs somewhere in the structure.\<close>

fun contains_Decimal :: "'d item \<Rightarrow> bool" where
  "contains_Decimal (DecimalV d) = True"
| "contains_Decimal (ListV xs) = list_ex contains_Decimal xs"
| "contains_Decimal (SetV xs) = list_ex contains_Decimal xs"
| "contains_Decimal (DictV kvs) = list_ex (\<lambda>kv. contains_Decimal (snd kv)) kvs"
| "contains_Decimal x = False"

section \<open>Concrete runs\<close>

text \<open>A stream given by its first values and the value of all later ones.\<close>

definition stream_of :: "real list \<Rightarrow> real \<Rightarrow> nat \<Rightarrow> real" where
  "stream_of xs d i = (if i < length xs then xs ! i else d)"

definition initial_world :: "(nat \<Rightarrow> real) \<Rightarrow> world" where
  "initial_world s =
    \<lparr>stream = s, pos = 0, log = [], clock = (\<lambda>n. ''2025-01-01T00:00:00''), clock_pos = 0\<rparr>"

text \<open>A device at \<open>LOCATIONS[0]\<close> with the given kinds and persisted values.\<close>

definition device_with :: "string list \<Rightarrow> (string \<rightharpoonup> real) \<Rightarrow> device" where
  "device_with kinds cv =
    \<lparr>device_id = ''device_0badc0de'', location = LOCATIONS ! 0,
     sensor_types = kinds, current_values = cv\<rparr>"

definition battery_device :: "real \<Rightarrow> device" where
  "battery_device v = device_with [''battery_level''] [''battery_level'' \<mapsto> v]"

section \<open>Predicates of the verification\<close>


text \<open>Every persisted value of a registered kind lies within the kind's range.\<close>

definition in_range :: "(string \<rightharpoonup> real) \<Rightarrow> bool" where
  "in_range cv = (\<forall>k cfg v. SENSOR_TYPES k = Some cfg \<longrightarrow> cv k = Some v \<longrightarrow>
      cfg_min cfg \<le> v \<and> v \<le> cfg_max cfg)"

text \<open>
  Every registered kind that the device lists has a persisted value: what
  \<open>generate_reading\<close> needs to read \<open>self.current_values[sensor_type]\<close>.
\<close>

definition well_formed :: "device \<Rightarrow> bool" where
  "well_formed dev = (set (sensor_types dev) \<inter> dom SENSOR_TYPES \<subseteq> dom (current_values dev))"

text \<open>
  Every reading built so far carries the persisted value of its kind and the unit of the
  kind's profile.
\<close>

definition reported :: "(string \<rightharpoonup> real) \<Rightarrow> (string \<rightharpoonup> sensor_reading) \<Rightarrow> bool" where
  "reported cv rd =
    (\<forall>k sr. rd k = Some sr \<longrightarrow>
       (\<exists>cfg. SENSOR_TYPES k = Some cfg \<and> reading_unit sr = cfg_unit cfg \<and>
              cv k = Some (reading_value sr)))"

text \<open>The calls of \<open>random.uniform\<close> that the drift loop makes on a list of kinds.\<close>

definition drift_calls :: "string list \<Rightarrow> rand_call list" where
  "drift_calls kinds =
    concat (map (\<lambda>k. case SENSOR_TYPES k of
                        None \<Rightarrow> []
                      | Some cfg \<Rightarrow> [Uniform (- drift_factor cfg) (drift_factor cfg)]) kinds)"

text \<open>The reading of a kind that reports the value persisted in the device.\<close>

definition drift_reading :: "device \<Rightarrow> string \<Rightarrow> sensor_reading option" where
  "drift_reading dev k =
    (if k \<in> set (sensor_types dev) then
       (case SENSOR_TYPES k of
          None \<Rightarrow> None
        | Some cfg \<Rightarrow>
            (case current_values dev k of
               None \<Rightarrow> None
             | Some v \<Rightarrow> Some \<lparr>reading_value = v, reading_unit = cfg_unit cfg\<rparr>))
     else None)"

section \<open>Verification\<close>

subsection \<open>Rounding keeps integer bounds\<close>

lemma round_half_even_ge: "of_int m \<le> y \<Longrightarrow> m \<le> round_half_even y"
proof -
  assume "of_int m \<le> y"
  then have "m \<le> \<lfloor>y\<rfloor>" by (simp add: le_floor_iff)
  then show ?thesis unfolding round_half_even_def Let_def by auto
qed

lemma round_half_even_le: "y \<le> of_int m \<Longrightarrow> round_half_even y \<le> m"
proof -
  assume h: "y \<le> of_int m"
  have f: "\<lfloor>y\<rfloor> \<le> m" using h by (metis floor_mono floor_of_int)
  show ?thesis
  proof (cases "\<lfloor>y\<rfloor> = m")
    case True
    then have "y = of_int m" using h by (metis of_int_floor_le order_antisym)
    then show ?thesis by (simp add: round_half_even_def)
  next
    case False
    then have "\<lfloor>y\<rfloor> + 1 \<le> m" using f by simp
    then show ?thesis using f unfolding round_half_even_def Let_def by auto
  qed
qed

lemma py_round_ge: "of_int m \<le> x \<Longrightarrow> of_int m \<le> py_round x p"
proof -
  assume h: "of_int m \<le> x"
  have "of_int (m * 10 ^ p) \<le> x * 10 ^ p" using h by (simp add: mult_right_mono)
  then have "m * 10 ^ p \<le> round_half_even (x * 10 ^ p)" by (rule round_half_even_ge)
  then have "(of_int (m * 10 ^ p) :: real) \<le> of_int (round_half_even (x * 10 ^ p))"
    by (simp only: of_int_le_iff)
  then show ?thesis unfolding py_round_def by (simp add: pos_le_divide_eq)
qed

lemma py_round_le: "x \<le> of_int m \<Longrightarrow> py_round x p \<le> of_int m"
proof -
  assume h: "x \<le> of_int m"
  have "x * 10 ^ p \<le> of_int (m * 10 ^ p)" using h by (simp add: mult_right_mono)
  then have "round_half_even (x * 10 ^ p) \<le> m * 10 ^ p" by (rule round_half_even_le)
  then have "(of_int (round_half_even (x * 10 ^ p)) :: real) \<le> of_int (m * 10 ^ p)"
    by (simp only: of_int_le_iff)
  then show ?thesis unfolding py_round_def by (simp add: pos_divide_le_eq)
qed

lemma SENSOR_TYPES_cases:
  "SENSOR_TYPES k = Some c \<Longrightarrow> cfg_min c \<in> \<int> \<and> cfg_max c \<in> \<int> \<and> cfg_min c \<le> cfg_max c"
  unfolding SENSOR_TYPES_def SENSOR_TYPES_items_def
  by (auto split: if_splits)

lemma py_round_clamp:
  assumes "lo \<in> \<int>" "hi \<in> \<int>" "lo \<le> hi"
  shows "lo \<le> py_round (max lo (min x hi)) p \<and> py_round (max lo (min x hi)) p \<le> hi"
proof -
  obtain a where a: "lo = of_int a" using assms(1) by (auto elim: Ints_cases)
  obtain b where b: "hi = of_int b" using assms(2) by (auto elim: Ints_cases)
  have "lo \<le> max lo (min x hi)" by simp
  moreover have "max lo (min x hi) \<le> hi" using assms(3) by simp
  ultimately show ?thesis unfolding a b by (blast intro: py_round_ge py_round_le)
qed


subsection \<open>The world and the persisted values\<close>

lemma draw_frame:
  "draw c w = (u, w') \<Longrightarrow>
     u = stream w (pos w) \<and> stream w' = stream w \<and> pos w' = Suc (pos w) \<and>
     log w' = log w @ [c] \<and> clock w' = clock w \<and> clock_pos w' = clock_pos w"
  by (auto simp: draw_def)

lemma uniform_frame:
  "uniform a b w = (v, w') \<Longrightarrow>
     v = a + (b - a) * stream w (pos w) \<and> stream w' = stream w \<and> pos w' = Suc (pos w) \<and>
     log w' = log w @ [Uniform a b] \<and> clock w' = clock w \<and> clock_pos w' = clock_pos w"
  by (auto simp: uniform_def draw_def)

lemma uniform_range:
  assumes "unit_stream w" "a \<le> b" "uniform a b w = (v, w')"
  shows "a \<le> v \<and> v \<le> b"
proof -
  let ?u = "stream w (pos w)"
  have u: "0 \<le> ?u" "?u \<le> 1" using assms(1) by (auto simp: unit_stream_def less_imp_le)
  have v: "v = a + (b - a) * ?u" using assms(3) by (simp add: uniform_frame)
  have "0 \<le> (b - a) * ?u" using u assms(2) by simp
  moreover have "(b - a) * ?u \<le> (b - a) * 1" using u assms(2) by (intro mult_left_mono) auto
  ultimately show ?thesis unfolding v by simp
qed

lemma in_range_upd:
  "in_range cv \<Longrightarrow> SENSOR_TYPES k = Some cfg \<Longrightarrow> cfg_min cfg \<le> v \<Longrightarrow> v \<le> cfg_max cfg \<Longrightarrow>
     in_range (cv(k \<mapsto> v))"
  by (auto simp: in_range_def)

lemma init_values_in_range:
  "unit_stream w \<Longrightarrow> in_range cv \<Longrightarrow> init_values kinds cv w = (cv', w') \<Longrightarrow> in_range cv'"
proof (induction kinds arbitrary: cv w)
  case Nil
  then show ?case by simp
next
  case (Cons s rest)
  show ?case
  proof (cases "SENSOR_TYPES s")
    case None
    with Cons show ?thesis by simp
  next
    case (Some cfg)
    obtain v w1 where u: "uniform (cfg_min cfg) (cfg_max cfg) w = (v, w1)"
      by (cases "uniform (cfg_min cfg) (cfg_max cfg) w")
    have le: "cfg_min cfg \<le> cfg_max cfg" using SENSOR_TYPES_cases [OF Some] by simp
    have "cfg_min cfg \<le> v \<and> v \<le> cfg_max cfg" using uniform_range [OF Cons.prems(1) le u] .
    then have r: "in_range (cv(s \<mapsto> v))" using Cons.prems(2) Some by (simp add: in_range_upd)
    have us: "unit_stream w1" using u Cons.prems(1) by (simp add: uniform_frame unit_stream_def)
    have "init_values rest (cv(s \<mapsto> v)) w1 = (cv', w')" using Cons.prems(3) Some u by simp
    then show ?thesis by (rule Cons.IH [OF us r])
  qed
qed

lemma init_values_dom:
  "init_values kinds cv w = (cv', w') \<Longrightarrow> dom cv' = dom cv \<union> (set kinds \<inter> dom SENSOR_TYPES)"
proof (induction kinds arbitrary: cv w)
  case Nil
  then show ?case by simp
next
  case (Cons s rest)
  show ?case
  proof (cases "SENSOR_TYPES s")
    case None
    then have "init_values rest cv w = (cv', w')" using Cons.prems by simp
    then have "dom cv' = dom cv \<union> (set rest \<inter> dom SENSOR_TYPES)" by (rule Cons.IH)
    then show ?thesis using None by auto
  next
    case (Some cfg)
    obtain v w1 where u: "uniform (cfg_min cfg) (cfg_max cfg) w = (v, w1)"
      by (cases "uniform (cfg_min cfg) (cfg_max cfg) w")
    have "init_values rest (cv(s \<mapsto> v)) w1 = (cv', w')" using Cons.prems Some u by simp
    then have "dom cv' = dom (cv(s \<mapsto> v)) \<union> (set rest \<inter> dom SENSOR_TYPES)" by (rule Cons.IH)
    then show ?thesis using Some by auto
  qed
qed

lemma drift_loop_in_range:
  "in_range cv \<Longrightarrow> drift_loop kinds cv rd w = (e, cv', rd', w') \<Longrightarrow> in_range cv'"
proof (induction kinds arbitrary: cv rd w)
  case Nil
  then show ?case by simp
next
  case (Cons s rest)
  show ?case
  proof (cases "SENSOR_TYPES s")
    case None
    with Cons show ?thesis by simp
  next
    case (Some cfg)
    obtain d w1 where u: "uniform (- drift_factor cfg) (drift_factor cfg) w = (d, w1)"
      by (cases "uniform (- drift_factor cfg) (drift_factor cfg) w")
    show ?thesis
    proof (cases "cv s")
      case None
      then show ?thesis using Cons.prems Some u by (simp add: Let_def)
    next
      case (Some cur)
      let ?x = "cur + (if get_decay cfg then \<bar>d\<bar> * - 1 else d)"
      let ?nv = "py_round (max (cfg_min cfg) (min ?x (cfg_max cfg))) (precision cfg)"
      have "cfg_min cfg \<le> ?nv \<and> ?nv \<le> cfg_max cfg"
        using SENSOR_TYPES_cases [OF \<open>SENSOR_TYPES s = Some cfg\<close>] by (intro py_round_clamp) auto
      then have r: "in_range (cv(s \<mapsto> ?nv))"
        using Cons.prems(1) \<open>SENSOR_TYPES s = Some cfg\<close> by (simp add: in_range_upd)
      have "drift_loop rest (cv(s \<mapsto> ?nv))
              (rd(s \<mapsto> \<lparr>reading_value = ?nv, reading_unit = cfg_unit cfg\<rparr>)) w1 = (e, cv', rd', w')"
        using Cons.prems(2) \<open>SENSOR_TYPES s = Some cfg\<close> u Some by (simp add: Let_def)
      then show ?thesis by (rule Cons.IH [OF r])
    qed
  qed
qed

lemma drift_loop_dom:
  "drift_loop kinds cv rd w = (e, cv', rd', w') \<Longrightarrow> dom cv' = dom cv"
proof (induction kinds arbitrary: cv rd w)
  case Nil
  then show ?case by simp
next
  case (Cons s rest)
  show ?case
  proof (cases "SENSOR_TYPES s")
    case None
    with Cons show ?thesis by simp
  next
    case (Some cfg)
    obtain d w1 where u: "uniform (- drift_factor cfg) (drift_factor cfg) w = (d, w1)"
      by (cases "uniform (- drift_factor cfg) (drift_factor cfg) w")
    show ?thesis
    proof (cases "cv s")
      case None
      then show ?thesis using Cons.prems Some u by (simp add: Let_def)
    next
      case (Some cur)
      then have d: "dom (cv(s \<mapsto> v)) = dom cv" for v by auto
      obtain nv sr where "drift_loop rest (cv(s \<mapsto> nv)) (rd(s \<mapsto> sr)) w1 = (e, cv', rd', w')"
        using Cons.prems \<open>SENSOR_TYPES s = Some cfg\<close> u Some by (simp add: Let_def)
      then have "dom cv' = dom (cv(s \<mapsto> nv))" by (rule Cons.IH)
      then show ?thesis using d by simp
    qed
  qed
qed

lemma generate_reading_persists:
  "generate_reading dev w = (res, dev', w') \<Longrightarrow>
     dev' = dev\<lparr>current_values :=
       fst (snd (drift_loop (sensor_types dev) (current_values dev) Map.empty (snd (now_isoformat w))))\<rparr>"
  by (auto simp: generate_reading_def split: prod.splits option.splits sum.splits)

subsection \<open>Evaluating concrete runs\<close>

lemmas run_defs =
  generate_reading_def now_isoformat_def SENSOR_TYPES_def SENSOR_TYPES_items_def
  uniform_def draw_def random_def choices_def choice_def anomaly_def reading_data_def get_decay_def
  py_round_def round_half_even_def Let_def DEVICE_STATUSES_def STATUS_WEIGHTS_def bisect_def
  initial_world_def battery_device_def device_with_def LOCATIONS_def stream_of_def SensorDevice_def

lemma unit_stream_stream_of:
  "list_all (\<lambda>x. 0 \<le> x \<and> x < 1) xs \<Longrightarrow> 0 \<le> d \<Longrightarrow> d < 1 \<Longrightarrow> unit_stream (initial_world (stream_of xs d))"
  by (auto simp: unit_stream_def initial_world_def stream_of_def list_all_length)

subsection \<open>Bounds\<close>

lemma ticks_invariant:
  "in_range (current_values dev) \<Longrightarrow> ticks n dev w = (dev', w') \<Longrightarrow>
     in_range (current_values dev') \<and> dom (current_values dev') = dom (current_values dev)"
proof (induction n arbitrary: dev w)
  case 0
  then show ?case by simp
next
  case (Suc n)
  obtain res d1 w1 where g: "generate_reading dev w = (res, d1, w1)"
    by (cases "generate_reading dev w")
  obtain e cv rd w2 where
    l: "drift_loop (sensor_types dev) (current_values dev) Map.empty (snd (now_isoformat w)) = (e, cv, rd, w2)"
    by (cases "drift_loop (sensor_types dev) (current_values dev) Map.empty (snd (now_isoformat w))")
  have cv: "current_values d1 = cv" using generate_reading_persists [OF g] l by simp
  have r: "in_range (current_values d1)"
    using drift_loop_in_range [OF Suc.prems(1) l] cv by simp
  have d: "dom (current_values d1) = dom (current_values dev)"
    using drift_loop_dom [OF l] cv by simp
  have "ticks n d1 w1 = (dev', w')" using Suc.prems(2) g by simp
  then show ?case using Suc.IH [OF r] d by simp
qed

lemma SensorDevice_in_range:
  assumes "unit_stream w" "SensorDevice did loc kinds w = (dev, w1)"
  shows "in_range (current_values dev) \<and> dom (current_values dev) = set kinds \<inter> dom SENSOR_TYPES
     \<and> sensor_types dev = kinds \<and> device_id dev = did \<and> location dev = loc"
proof -
  obtain cv w2 where i: "init_values kinds Map.empty w = (cv, w2)"
    by (cases "init_values kinds Map.empty w")
  have e: "in_range Map.empty" by (simp add: in_range_def)
  have "in_range cv" using init_values_in_range [OF assms(1) e i] .
  moreover have "dom cv = set kinds \<inter> dom SENSOR_TYPES" using init_values_dom [OF i] by simp
  moreover have "dev = \<lparr>device_id = did, location = loc, sensor_types = kinds, current_values = cv\<rparr>"
    using assms(2) i by (simp add: SensorDevice_def)
  ultimately show ?thesis by simp
qed

text \<open>
  C1 (bounds invariant). A device is created on a stream of values in \<open>[0, 1)\<close> and
  \<open>generate_reading\<close> is called any number \<open>n\<close> of times on it. Then every registered
  kind that the device lists has a persisted value, and the value lies within the kind's
  range \<open>[min, max]\<close>, bounds included. The branches that the calls take play no
  part: the statement holds whether or not a drift is a decay and whether or not an
  anomaly draw fires.
\<close>

theorem bounds_invariant:
  assumes "unit_stream w"
    and "SensorDevice did loc kinds w = (dev, w1)"
    and "ticks n dev w1 = (dev', w')"
    and "k \<in> set kinds"
    and "SENSOR_TYPES k = Some cfg"
  shows "\<exists>v. current_values dev' k = Some v \<and> cfg_min cfg \<le> v \<and> v \<le> cfg_max cfg"
proof -
  have s: "in_range (current_values dev)" "dom (current_values dev) = set kinds \<inter> dom SENSOR_TYPES"
    using SensorDevice_in_range [OF assms(1,2)] by simp_all
  have t: "in_range (current_values dev')" "dom (current_values dev') = dom (current_values dev)"
    using ticks_invariant [OF s(1) assms(3)] by simp_all
  have "k \<in> dom (current_values dev')" using t(2) s(2) assms(4,5) by auto
  then obtain v where v: "current_values dev' k = Some v" by auto
  then show ?thesis using t(1) assms(5) by (auto simp: in_range_def)
qed

text \<open>
  The invariant at a battery-only device created at 79.6 and advanced once: the persisted
  value is 80.
\<close>

theorem bounds_invariant_witness:
  "current_values
     (fst (ticks (Suc 0)
        (fst (SensorDevice ''device_0badc0de'' (LOCATIONS ! 0) [''battery_level'']
               (initial_world (stream_of [796 / 1000, 3 / 4] (1 / 2)))))
        (snd (SensorDevice ''device_0badc0de'' (LOCATIONS ! 0) [''battery_level'']
               (initial_world (stream_of [796 / 1000, 3 / 4] (1 / 2)))))))
     ''battery_level'' = Some 80 \<and>
   (\<exists>v. current_values
     (fst (ticks (Suc 0)
        (fst (SensorDevice ''device_0badc0de'' (LOCATIONS ! 0) [''battery_level'']
               (initial_world (stream_of [796 / 1000, 3 / 4] (1 / 2)))))
        (snd (SensorDevice ''device_0badc0de'' (LOCATIONS ! 0) [''battery_level'']
               (initial_world (stream_of [796 / 1000, 3 / 4] (1 / 2)))))))
     ''battery_level'' = Some v \<and> 0 \<le> v \<and> v \<le> 100)"
proof -
  let ?w = "initial_world (stream_of [796 / 1000, 3 / 4] (1 / 2))"
  let ?c = "SensorDevice ''device_0badc0de'' (LOCATIONS ! 0) [''battery_level''] ?w"
  let ?t = "ticks (Suc 0) (fst ?c) (snd ?c)"
  have 1: "unit_stream ?w" by (simp add: unit_stream_stream_of)
  have 2: "?c = (fst ?c, snd ?c)" by simp
  have 3: "?t = (fst ?t, snd ?t)" by simp
  have 4: "''battery_level'' \<in> set [''battery_level'']" by simp
  have 5: "SENSOR_TYPES ''battery_level'' =
      Some \<lparr>cfg_unit = ''%'', cfg_min = 0, cfg_max = 100, precision = 0,
            drift_factor = 1 / 10, decay = Some True\<rparr>"
    by (simp add: SENSOR_TYPES_def SENSOR_TYPES_items_def)
  have 6: "current_values (fst ?t) ''battery_level'' = Some 80" by (simp add: run_defs)
  show ?thesis using bounds_invariant [OF 1 2 3 4 5] 6 by simp
qed

subsection \<open>What a call leaves unchanged\<close>

lemma choices_frame:
  "choices p ws w = (st, w') \<Longrightarrow>
     stream w' = stream w \<and> pos w' = Suc (pos w) \<and> log w' = log w @ [Choices]"
  by (auto simp: choices_def draw_def Let_def)

lemma random_frame:
  "random w = (u, w') \<Longrightarrow>
     u = stream w (pos w) \<and> stream w' = stream w \<and> pos w' = Suc (pos w) \<and> log w' = log w @ [Random]"
  by (auto simp: random_def draw_def)

lemma choice_frame:
  "choice seq w = (res, w') \<Longrightarrow> stream w' = stream w"
  by (auto simp: choice_def draw_def Let_def split: if_splits)

lemma drift_loop_stream:
  "drift_loop kinds cv rd w = (e, cv', rd', w') \<Longrightarrow> stream w' = stream w"
proof (induction kinds arbitrary: cv rd w)
  case Nil
  then show ?case by simp
next
  case (Cons s rest)
  show ?case
  proof (cases "SENSOR_TYPES s")
    case None
    with Cons show ?thesis by simp
  next
    case (Some cfg)
    obtain d w1 where u: "uniform (- drift_factor cfg) (drift_factor cfg) w = (d, w1)"
      by (cases "uniform (- drift_factor cfg) (drift_factor cfg) w")
    have s1: "stream w1 = stream w" using u by (simp add: uniform_frame)
    show ?thesis
    proof (cases "cv s")
      case None
      then show ?thesis using Cons.prems \<open>SENSOR_TYPES s = Some cfg\<close> u s1 by (simp add: Let_def)
    next
      case (Some cur)
      obtain nv sr where "drift_loop rest (cv(s \<mapsto> nv)) (rd(s \<mapsto> sr)) w1 = (e, cv', rd', w')"
        using Cons.prems \<open>SENSOR_TYPES s = Some cfg\<close> u Some by (simp add: Let_def)
      then have "stream w' = stream w1" by (rule Cons.IH)
      then show ?thesis using s1 by simp
    qed
  qed
qed

lemma anomaly_stream:
  "anomaly kinds rd w = (res, w') \<Longrightarrow> stream w' = stream w"
  by (auto simp: anomaly_def random_def draw_def dest!: choice_frame
      split: prod.splits if_splits sum.splits option.splits)

lemma reading_data_frame:
  "reading_data dev ts rd st w = (r, w') \<Longrightarrow>
     stream w' = stream w \<and> pos w' = Suc (Suc (pos w)) \<and>
     log w' = log w @ [Uniform (- (1 / 10000)) (1 / 10000), Uniform (- (1 / 10000)) (1 / 10000)] \<and>
     r = \<lparr>r_device_id = device_id dev, timestamp = ts,
          location_id = loc_id (location dev), location_name = loc_name (location dev),
          coords = \<lparr>latitude = lat (location dev) + (- (1 / 10000) + (1 / 10000 - - (1 / 10000)) * stream w (pos w)),
                    longitude = lon (location dev) + (- (1 / 10000) + (1 / 10000 - - (1 / 10000)) * stream w (Suc (pos w)))\<rparr>,
          readings = rd, status = st\<rparr>"
  by (auto simp: reading_data_def uniform_def draw_def)

lemma generate_reading_Inr:
  "generate_reading dev w = (Inr r, dev', w') \<Longrightarrow>
     \<exists>ts w0 cv rd w1 st w2 rd' w3.
       now_isoformat w = (ts, w0) \<and>
       drift_loop (sensor_types dev) (current_values dev) Map.empty w0 = (None, cv, rd, w1) \<and>
       choices DEVICE_STATUSES STATUS_WEIGHTS w1 = (st, w2) \<and>
       anomaly (sensor_types dev) rd w2 = (Inr rd', w3) \<and>
       reading_data dev ts rd' st w3 = (r, w') \<and>
       dev' = dev\<lparr>current_values := cv\<rparr>"
  by (auto simp: generate_reading_def split: prod.splits option.splits sum.splits)

lemma now_isoformat_frame:
  "now_isoformat w = (ts, w') \<Longrightarrow> stream w' = stream w \<and> pos w' = pos w \<and> log w' = log w"
  by (auto simp: now_isoformat_def)

text \<open>
  C8 (frame). A call of \<open>generate_reading\<close> changes nothing of the device but
  \<open>current_values\<close>: the id, the list of kinds and the location, with its base
  latitude and longitude, are the same afterwards. The jitter is in the returned
  reading only: its coordinates are the base coordinates plus the last two draws of
  the call, mapped to \<open>[-0.0001, 0.0001]\<close>.
\<close>

theorem generate_reading_frame:
  assumes "generate_reading dev w = (res, dev', w')"
  shows "device_id dev' = device_id dev \<and> sensor_types dev' = sensor_types dev \<and>
         location dev' = location dev \<and>
         (\<forall>r. res = Inr r \<longrightarrow>
            latitude (coords r) =
              lat (location dev) + (- (1 / 10000) + (1 / 10000 - - (1 / 10000)) * stream w (pos w' - 2)) \<and>
            longitude (coords r) =
              lon (location dev) + (- (1 / 10000) + (1 / 10000 - - (1 / 10000)) * stream w (pos w' - 1)))"
proof -
  have d: "dev' = dev\<lparr>current_values := current_values dev'\<rparr>"
    using generate_reading_persists [OF assms] by simp
  have f: "device_id dev' = device_id dev \<and> sensor_types dev' = sensor_types dev \<and>
         location dev' = location dev"
    by (subst d, subst (2) d, subst (3) d) simp
  have "latitude (coords r) =
              lat (location dev) + (- (1 / 10000) + (1 / 10000 - - (1 / 10000)) * stream w (pos w' - 2)) \<and>
            longitude (coords r) =
              lon (location dev) + (- (1 / 10000) + (1 / 10000 - - (1 / 10000)) * stream w (pos w' - 1))"
    if "res = Inr r" for r
  proof -
    have g: "generate_reading dev w = (Inr r, dev', w')" using assms that by simp
    from generate_reading_Inr [OF g] obtain ts w0 cv rd w1 st w2 rd' w3 where
      n: "now_isoformat w = (ts, w0)" and
      l: "drift_loop (sensor_types dev) (current_values dev) Map.empty w0 = (None, cv, rd, w1)" and
      c: "choices DEVICE_STATUSES STATUS_WEIGHTS w1 = (st, w2)" and
      a: "anomaly (sensor_types dev) rd w2 = (Inr rd', w3)" and
      b: "reading_data dev ts rd' st w3 = (r, w')"
      by auto
    have s: "stream w3 = stream w"
      using now_isoformat_frame [OF n] drift_loop_stream [OF l] choices_frame [OF c] anomaly_stream [OF a]
      by simp
    have p: "pos w' = Suc (Suc (pos w3))" using reading_data_frame [OF b] by simp
    have p2: "pos w' - 2 = pos w3" "pos w' - 1 = Suc (pos w3)" using p by simp_all
    show ?thesis unfolding p2 using reading_data_frame [OF b] s by simp
  qed
  then show ?thesis using f by blast
qed

text \<open>
  The frame at a battery-only device at 80 on the constant stream 3/4: the reading's
  latitude is the base latitude plus 0.00005, and the location still holds the base.
\<close>

theorem generate_reading_frame_witness:
  "fst (generate_reading (battery_device 80) (initial_world (stream_of [] (3 / 4)))) =
     Inr \<lparr>r_device_id = ''device_0badc0de'', timestamp = ''2025-01-01T00:00:00'',
          location_id = ''warehouse_a'', location_name = ''Warehouse A'',
          coords = \<lparr>latitude = 476062 / 10000 + 1 / 20000, longitude = - (1223321 / 10000) + 1 / 20000\<rparr>,
          readings = [''battery_level'' \<mapsto> \<lparr>reading_value = 80, reading_unit = ''%''\<rparr>],
          status = ''operational''\<rparr> \<and>
   location (fst (snd (generate_reading (battery_device 80) (initial_world (stream_of [] (3 / 4)))))) =
     \<lparr>loc_id = ''warehouse_a'', loc_name = ''Warehouse A'', lat = 476062 / 10000, lon = - (1223321 / 10000)\<rparr> \<and>
   device_id (fst (snd (generate_reading (battery_device 80) (initial_world (stream_of [] (3 / 4)))))) =
     ''device_0badc0de'' \<and>
   sensor_types (fst (snd (generate_reading (battery_device 80) (initial_world (stream_of [] (3 / 4)))))) =
     [''battery_level'']"
proof -
  let ?g = "generate_reading (battery_device 80) (initial_world (stream_of [] (3 / 4)))"
  have e: "?g = (fst ?g, fst (snd ?g), snd (snd ?g))" by simp
  have r: "fst ?g =
     Inr \<lparr>r_device_id = ''device_0badc0de'', timestamp = ''2025-01-01T00:00:00'',
          location_id = ''warehouse_a'', location_name = ''Warehouse A'',
          coords = \<lparr>latitude = 476062 / 10000 + 1 / 20000, longitude = - (1223321 / 10000) + 1 / 20000\<rparr>,
          readings = [''battery_level'' \<mapsto> \<lparr>reading_value = 80, reading_unit = ''%''\<rparr>],
          status = ''operational''\<rparr>"
    by (simp add: run_defs)
  have d: "location (battery_device 80) =
      \<lparr>loc_id = ''warehouse_a'', loc_name = ''Warehouse A'', lat = 476062 / 10000, lon = - (1223321 / 10000)\<rparr>"
    "device_id (battery_device 80) = ''device_0badc0de''"
    "sensor_types (battery_device 80) = [''battery_level'']"
    by (simp_all add: battery_device_def device_with_def LOCATIONS_def)
  show ?thesis using generate_reading_frame [OF e] r d by simp
qed

subsection \<open>Readings and persisted values\<close>

lemma reported_upd:
  "reported cv rd \<Longrightarrow> SENSOR_TYPES s = Some cfg \<Longrightarrow>
     reported (cv(s \<mapsto> nv)) (rd(s \<mapsto> \<lparr>reading_value = nv, reading_unit = cfg_unit cfg\<rparr>))"
  by (auto simp: reported_def)

lemma drift_loop_reported:
  "reported cv rd \<Longrightarrow> drift_loop kinds cv rd w = (e, cv', rd', w') \<Longrightarrow> reported cv' rd'"
proof (induction kinds arbitrary: cv rd w)
  case Nil
  then show ?case by simp
next
  case (Cons s rest)
  show ?case
  proof (cases "SENSOR_TYPES s")
    case None
    with Cons show ?thesis by simp
  next
    case (Some cfg)
    obtain d w1 where u: "uniform (- drift_factor cfg) (drift_factor cfg) w = (d, w1)"
      by (cases "uniform (- drift_factor cfg) (drift_factor cfg) w")
    show ?thesis
    proof (cases "cv s")
      case None
      then show ?thesis using Cons.prems \<open>SENSOR_TYPES s = Some cfg\<close> u by (simp add: Let_def)
    next
      case (Some cur)
      obtain nv where
        "drift_loop rest (cv(s \<mapsto> nv))
           (rd(s \<mapsto> \<lparr>reading_value = nv, reading_unit = cfg_unit cfg\<rparr>)) w1 = (e, cv', rd', w')"
        using Cons.prems(2) \<open>SENSOR_TYPES s = Some cfg\<close> u Some by (simp add: Let_def)
      moreover have "reported (cv(s \<mapsto> nv)) (rd(s \<mapsto> \<lparr>reading_value = nv, reading_unit = cfg_unit cfg\<rparr>))"
        using Cons.prems(1) \<open>SENSOR_TYPES s = Some cfg\<close> by (rule reported_upd)
      ultimately show ?thesis using Cons.IH by blast
    qed
  qed
qed

lemma anomaly_Inr:
  "anomaly kinds rd w = (Inr rd', w') \<Longrightarrow>
     rd' = rd \<or>
     (\<exists>k sr cfg. rd k = Some sr \<and> SENSOR_TYPES k = Some cfg \<and>
        (rd' = rd(k \<mapsto> sr\<lparr>reading_value := cfg_max cfg\<rparr>) \<or>
         rd' = rd(k \<mapsto> sr\<lparr>reading_value := cfg_min cfg\<rparr>)))"
  unfolding anomaly_def
  by (auto split: prod.splits if_splits sum.splits option.splits)

text \<open>
  C10 (reading-only anomaly). Let the drift loop of a call of \<open>generate_reading\<close>
  compute the values \<open>cv\<close> and the readings \<open>rd\<close>. Then the call persists exactly
  \<open>cv\<close>, whatever the anomaly branch does, and every reading of \<open>rd\<close> carries the
  persisted value of its kind. The returned reading holds \<open>rd\<close>, except that for a kind
  the anomaly branch may have replaced the value field, and only that field, by the
  maximum or the minimum of the kind's profile: the replacement is not persisted.
\<close>

theorem anomaly_is_reading_only:
  assumes "generate_reading dev w = (res, dev', w')"
    and "drift_loop (sensor_types dev) (current_values dev) Map.empty (snd (now_isoformat w)) =
           (e, cv, rd, w1)"
  shows "current_values dev' = cv \<and>
         (\<forall>k sr. rd k = Some sr \<longrightarrow> cv k = Some (reading_value sr)) \<and>
         (\<forall>r. res = Inr r \<longrightarrow>
            (\<forall>k. readings r k = rd k \<or>
               (\<exists>sr cfg. rd k = Some sr \<and> SENSOR_TYPES k = Some cfg \<and>
                  (readings r k = Some (sr\<lparr>reading_value := cfg_max cfg\<rparr>) \<or>
                   readings r k = Some (sr\<lparr>reading_value := cfg_min cfg\<rparr>)))))"
proof -
  have p: "current_values dev' = cv" using generate_reading_persists [OF assms(1)] assms(2) by simp
  have "reported (current_values dev) Map.empty" by (simp add: reported_def)
  then have "reported cv rd" using assms(2) by (rule drift_loop_reported)
  then have q: "\<forall>k sr. rd k = Some sr \<longrightarrow> cv k = Some (reading_value sr)"
    by (auto simp: reported_def)
  have "readings r k = rd k \<or>
               (\<exists>sr cfg. rd k = Some sr \<and> SENSOR_TYPES k = Some cfg \<and>
                  (readings r k = Some (sr\<lparr>reading_value := cfg_max cfg\<rparr>) \<or>
                   readings r k = Some (sr\<lparr>reading_value := cfg_min cfg\<rparr>)))"
    if "res = Inr r" for r k
  proof -
    have g: "generate_reading dev w = (Inr r, dev', w')" using assms(1) that by simp
    from generate_reading_Inr [OF g] obtain ts w0 cv0 rd0 w10 st w2 rd' w3 where
      n: "now_isoformat w = (ts, w0)" and
      l: "drift_loop (sensor_types dev) (current_values dev) Map.empty w0 = (None, cv0, rd0, w10)" and
      a: "anomaly (sensor_types dev) rd0 w2 = (Inr rd', w3)" and
      b: "reading_data dev ts rd' st w3 = (r, w')"
      by auto
    have rd0: "rd0 = rd" using n l assms(2) by simp
    have rr: "readings r = rd'" using reading_data_frame [OF b] by simp
    from anomaly_Inr [OF a] show ?thesis unfolding rr rd0 by auto
  qed
  then show ?thesis using p q by blast
qed

text \<open>
  A battery-only device at 80 on a stream whose third and fifth values fire the anomaly
  and choose the spike: the reading reports 100, the device keeps 80.
\<close>

theorem anomaly_is_reading_only_witness:
  "fst (snd (drift_loop [''battery_level''] [''battery_level'' \<mapsto> 80] Map.empty
       (snd (now_isoformat (initial_world (stream_of [3 / 4, 1 / 2, 1 / 200, 1 / 4, 1 / 4] (1 / 2))))))) =
     [''battery_level'' \<mapsto> 80] \<and>
   current_values (fst (snd (generate_reading (battery_device 80)
       (initial_world (stream_of [3 / 4, 1 / 2, 1 / 200, 1 / 4, 1 / 4] (1 / 2)))))) =
     [''battery_level'' \<mapsto> 80] \<and>
   readings (projr (fst (generate_reading (battery_device 80)
       (initial_world (stream_of [3 / 4, 1 / 2, 1 / 200, 1 / 4, 1 / 4] (1 / 2)))))) =
     [''battery_level'' \<mapsto> \<lparr>reading_value = 100, reading_unit = ''%''\<rparr>]"
proof -
  let ?w = "initial_world (stream_of [3 / 4, 1 / 2, 1 / 200, 1 / 4, 1 / 4] (1 / 2))"
  let ?g = "generate_reading (battery_device 80) ?w"
  let ?l = "drift_loop (sensor_types (battery_device 80)) (current_values (battery_device 80))
              Map.empty (snd (now_isoformat ?w))"
  have e: "?g = (fst ?g, fst (snd ?g), snd (snd ?g))" by simp
  have l: "?l = (fst ?l, fst (snd ?l), fst (snd (snd ?l)), snd (snd (snd ?l)))" by simp
  have c: "fst (snd ?l) = [''battery_level'' \<mapsto> 80]" by (simp add: run_defs)
  have r: "readings (projr (fst ?g)) =
      [''battery_level'' \<mapsto> \<lparr>reading_value = 100, reading_unit = ''%''\<rparr>]"
    by (simp add: run_defs)
  have d: "sensor_types (battery_device 80) = [''battery_level'']"
    "current_values (battery_device 80) = [''battery_level'' \<mapsto> 80]"
    by (simp_all add: battery_device_def device_with_def)
  show ?thesis using anomaly_is_reading_only [OF e l] c r d by simp
qed

subsection \<open>Decay\<close>

lemma decay_registry:
  "SENSOR_TYPES k = Some cfg \<Longrightarrow> get_decay cfg \<Longrightarrow>
     precision cfg = 0 \<and> cfg_min cfg \<in> \<int> \<and> cfg_min cfg \<le> cfg_max cfg"
  unfolding SENSOR_TYPES_def SENSOR_TYPES_items_def
  by (auto simp: get_decay_def split: if_splits)

lemma py_round_0_int: "py_round x 0 \<in> \<int>"
  by (simp add: py_round_def)

text \<open>
  One decay step from a whole value at or above the minimum: the new value is whole,
  at or above the minimum, and not above the old one.
\<close>

lemma decay_value:
  assumes "v \<in> \<int>" "lo \<in> \<int>" "lo \<le> v"
  shows "py_round (max lo (min (v + \<bar>d\<bar> * - 1) hi)) 0 \<in> \<int> \<and>
         lo \<le> py_round (max lo (min (v + \<bar>d\<bar> * - 1) hi)) 0 \<and>
         py_round (max lo (min (v + \<bar>d\<bar> * - 1) hi)) 0 \<le> v"
proof -
  obtain a where a: "lo = of_int a" using assms(2) by (auto elim: Ints_cases)
  obtain b where b: "v = of_int b" using assms(1) by (auto elim: Ints_cases)
  let ?x = "max lo (min (v + \<bar>d\<bar> * - 1) hi)"
  have "lo \<le> ?x" by simp
  then have 1: "lo \<le> py_round ?x 0" unfolding a by (rule py_round_ge)
  have "?x \<le> v" using assms(3) by auto
  then have 2: "py_round ?x 0 \<le> v" unfolding b by (rule py_round_le)
  show ?thesis using 1 2 py_round_0_int by simp
qed

lemma drift_loop_decay:
  assumes "SENSOR_TYPES k = Some cfg" "get_decay cfg"
  shows "cv k = Some v \<Longrightarrow> v \<in> \<int> \<Longrightarrow> cfg_min cfg \<le> v \<Longrightarrow>
         drift_loop kinds cv rd w = (e, cv', rd', w') \<Longrightarrow>
         \<exists>v'. cv' k = Some v' \<and> v' \<in> \<int> \<and> cfg_min cfg \<le> v' \<and> v' \<le> v"
proof (induction kinds arbitrary: cv rd w v)
  case Nil
  then show ?case by simp
next
  case (Cons s rest)
  show ?case
  proof (cases "SENSOR_TYPES s")
    case None
    then have "drift_loop rest cv rd w = (e, cv', rd', w')" using Cons.prems(4) by simp
    then show ?thesis using Cons.IH Cons.prems(1-3) by blast
  next
    case (Some c)
    obtain d w1 where u: "uniform (- drift_factor c) (drift_factor c) w = (d, w1)"
      by (cases "uniform (- drift_factor c) (drift_factor c) w")
    show ?thesis
    proof (cases "cv s")
      case None
      then have "cv' = cv" using Cons.prems(4) Some u by (simp add: Let_def)
      then show ?thesis using Cons.prems(1-3) by simp
    next
      case cur: (Some cur)
      let ?nv = "py_round (max (cfg_min c) (min (cur + (if get_decay c then \<bar>d\<bar> * - 1 else d)) (cfg_max c)))
                   (precision c)"
      have step: "drift_loop rest (cv(s \<mapsto> ?nv))
           (rd(s \<mapsto> \<lparr>reading_value = ?nv, reading_unit = cfg_unit c\<rparr>)) w1 = (e, cv', rd', w')"
        using Cons.prems(4) Some u cur by (simp add: Let_def)
      show ?thesis
      proof (cases "s = k")
        case True
        then have c: "c = cfg" "cur = v" using Some assms(1) cur Cons.prems(1) by simp_all
        have reg: "precision cfg = 0" "cfg_min cfg \<in> \<int>" using decay_registry [OF assms] by simp_all
        have nv: "?nv = py_round (max (cfg_min cfg) (min (v + \<bar>d\<bar> * - 1) (cfg_max cfg))) 0"
          unfolding c using assms(2) reg(1) by simp
        have n: "?nv \<in> \<int>" "cfg_min cfg \<le> ?nv" "?nv \<le> v"
          unfolding nv using decay_value [OF Cons.prems(2) reg(2) Cons.prems(3)] by simp_all
        have "(cv(s \<mapsto> ?nv)) k = Some ?nv" using True by simp
        from Cons.IH [OF this n(1) n(2) step] obtain v' where
          "cv' k = Some v'" "v' \<in> \<int>" "cfg_min cfg \<le> v'" "v' \<le> ?nv"
          by blast
        then show ?thesis using n(3) by auto
      next
        case False
        then have "(cv(s \<mapsto> ?nv)) k = Some v" using Cons.prems(1) by simp
        from Cons.IH [OF this Cons.prems(2,3) step] show ?thesis .
      qed
    qed
  qed
qed

lemma generate_reading_decay:
  assumes "SENSOR_TYPES k = Some cfg" "get_decay cfg"
    and "current_values dev k = Some v" "v \<in> \<int>" "cfg_min cfg \<le> v"
    and "generate_reading dev w = (res, dev', w')"
  shows "\<exists>v'. current_values dev' k = Some v' \<and> v' \<in> \<int> \<and> cfg_min cfg \<le> v' \<and> v' \<le> v"
proof -
  obtain e cv rd w1 where
    l: "drift_loop (sensor_types dev) (current_values dev) Map.empty (snd (now_isoformat w)) = (e, cv, rd, w1)"
    by (cases "drift_loop (sensor_types dev) (current_values dev) Map.empty (snd (now_isoformat w))")
  have "current_values dev' = cv" using generate_reading_persists [OF assms(6)] l by simp
  then show ?thesis using drift_loop_decay [OF assms(1-5) l] by simp
qed

lemma ticks_Suc_last:
  "ticks (Suc n) dev w =
     (case ticks n dev w of (d, w1) \<Rightarrow> (fst (snd (generate_reading d w1)), snd (snd (generate_reading d w1))))"
proof (induction n arbitrary: dev w)
  case 0
  show ?case by (simp split: prod.splits)
next
  case (Suc n)
  obtain res d1 w1 where g: "generate_reading dev w = (res, d1, w1)"
    by (cases "generate_reading dev w")
  have "ticks (Suc (Suc n)) dev w = ticks (Suc n) d1 w1" using g by simp
  also have "\<dots> = (case ticks n d1 w1 of (d, w2) \<Rightarrow>
      (fst (snd (generate_reading d w2)), snd (snd (generate_reading d w2))))"
    by (rule Suc.IH)
  also have "ticks n d1 w1 = ticks (Suc n) dev w" using g by simp
  finally show ?case .
qed

lemma ticks_decay:
  assumes "SENSOR_TYPES k = Some cfg" "get_decay cfg"
  shows "current_values dev k = Some v \<Longrightarrow> v \<in> \<int> \<Longrightarrow> cfg_min cfg \<le> v \<Longrightarrow>
     \<exists>v'. current_values (fst (ticks n dev w)) k = Some v' \<and> v' \<in> \<int> \<and> cfg_min cfg \<le> v' \<and> v' \<le> v"
proof (induction n arbitrary: dev w v)
  case 0
  then show ?case by simp
next
  case (Suc n)
  obtain res d1 w1 where g: "generate_reading dev w = (res, d1, w1)"
    by (cases "generate_reading dev w")
  from generate_reading_decay [OF assms Suc.prems g] obtain v1 where
    v1: "current_values d1 k = Some v1" "v1 \<in> \<int>" "cfg_min cfg \<le> v1" "v1 \<le> v"
    by blast
  from Suc.IH [OF v1(1-3)] obtain v' where
    "current_values (fst (ticks n d1 w1)) k = Some v'" "v' \<in> \<int>" "cfg_min cfg \<le> v'" "v' \<le> v1"
    by blast
  then show ?case using g v1(4) by auto
qed

text \<open>
  C7 (absorbing minimum). For a decay-flagged kind, a device whose persisted value is
  the profile's minimum still has the minimum after any number of calls of
  \<open>generate_reading\<close>; and from a persisted value of 80 the value after call \<open>n + 1\<close> is
  never above the value after call \<open>n\<close>. Both hold for every stream, so also on the
  calls in which the anomaly override does not fire.
\<close>

theorem decay_minimum_absorbing:
  assumes "SENSOR_TYPES k = Some cfg" and "get_decay cfg"
  shows "(current_values dev k = Some (cfg_min cfg) \<longrightarrow>
            current_values (fst (ticks n dev w)) k = Some (cfg_min cfg)) \<and>
         (current_values dev k = Some 80 \<longrightarrow>
            (\<exists>v v'. current_values (fst (ticks n dev w)) k = Some v \<and>
                    current_values (fst (ticks (Suc n) dev w)) k = Some v' \<and> v' \<le> v))"
proof -
  have reg: "cfg_min cfg \<in> \<int>" using decay_registry [OF assms] by simp
  have low: "cfg_min cfg \<le> 80"
    using assms unfolding SENSOR_TYPES_def SENSOR_TYPES_items_def
    by (auto simp: get_decay_def split: if_splits)
  have "current_values (fst (ticks n dev w)) k = Some (cfg_min cfg)"
    if "current_values dev k = Some (cfg_min cfg)"
    using ticks_decay [OF assms that reg order_refl, of n w] by auto
  moreover have "\<exists>v v'. current_values (fst (ticks n dev w)) k = Some v \<and>
                    current_values (fst (ticks (Suc n) dev w)) k = Some v' \<and> v' \<le> v"
    if s: "current_values dev k = Some 80"
  proof -
    have "(80::real) \<in> \<int>" by simp
    from ticks_decay [OF assms s this low, of n w] obtain v where
      v: "current_values (fst (ticks n dev w)) k = Some v" "v \<in> \<int>" "cfg_min cfg \<le> v"
      by blast
    obtain d w1 where t: "ticks n dev w = (d, w1)" by (cases "ticks n dev w")
    obtain res d' w' where g: "generate_reading d w1 = (res, d', w')"
      by (cases "generate_reading d w1")
    have vd: "current_values d k = Some v" using v(1) t by simp
    from generate_reading_decay [OF assms vd v(2,3) g] obtain v' where
      "current_values d' k = Some v'" "v' \<le> v"
      by blast
    moreover have "fst (ticks (Suc n) dev w) = d'" unfolding ticks_Suc_last t using g by simp
    ultimately show ?thesis using v(1) by auto
  qed
  ultimately show ?thesis by blast
qed

text \<open>
  Battery-only devices at 0 and at 80, three calls each on the constant stream 1/2: the
  first stays at 0, the second does not rise between the third and the fourth call.
\<close>

theorem decay_minimum_absorbing_witness:
  "get_decay \<lparr>cfg_unit = ''%'', cfg_min = 0, cfg_max = 100, precision = 0,
               drift_factor = 1 / 10, decay = Some True\<rparr> \<and>
   current_values (battery_device 0) ''battery_level'' = Some 0 \<and>
   current_values (fst (ticks (Suc (Suc (Suc 0))) (battery_device 0) (initial_world (stream_of [] (1 / 2)))))
     ''battery_level'' = Some 0 \<and>
   current_values (battery_device 80) ''battery_level'' = Some 80 \<and>
   (\<exists>v v'. current_values (fst (ticks (Suc (Suc (Suc 0))) (battery_device 80) (initial_world (stream_of [] (1 / 2)))))
              ''battery_level'' = Some v \<and>
           current_values (fst (ticks (Suc (Suc (Suc (Suc 0)))) (battery_device 80) (initial_world (stream_of [] (1 / 2)))))
              ''battery_level'' = Some v' \<and> v' \<le> v)"
proof -
  let ?cfg = "\<lparr>cfg_unit = ''%'', cfg_min = 0, cfg_max = 100, precision = 0,
               drift_factor = 1 / 10, decay = Some True\<rparr>"
  have 1: "SENSOR_TYPES ''battery_level'' = Some ?cfg"
    by (simp add: SENSOR_TYPES_def SENSOR_TYPES_items_def)
  have 2: "get_decay ?cfg" by (simp add: get_decay_def)
  have 3: "current_values (battery_device 0) ''battery_level'' = Some 0"
    "current_values (battery_device 80) ''battery_level'' = Some 80"
    by (simp_all add: battery_device_def device_with_def)
  show ?thesis
    using decay_minimum_absorbing [OF 1 2, of "battery_device 0" "Suc (Suc (Suc 0))"
        "initial_world (stream_of [] (1 / 2))"]
      decay_minimum_absorbing [OF 1 2, of "battery_device 80" "Suc (Suc (Suc 0))"
        "initial_world (stream_of [] (1 / 2))"] 2 3
    by simp
qed

subsection \<open>The first call after creation\<close>

text \<open>
  C2 (decay monotonicity) at the first call after creation. A battery-only device is
  created on a stream whose first value is 0.796, so its persisted value is 79.6; the
  next value 0.75 gives the drift 0.05, made \<open>-0.05\<close> by the decay branch. The call
  computes 79.55, clamps it and rounds it to 80: the persisted value rises from 79.6
  to 80, in a call whose anomaly draw (0.5) does not fire.
\<close>

theorem decay_first_call_rises:
  "fst (SensorDevice ''device_0badc0de'' (LOCATIONS ! 0) [''battery_level'']
         (initial_world (stream_of [796 / 1000, 3 / 4] (1 / 2)))) = battery_device (796 / 10) \<and>
   current_values (battery_device (796 / 10)) ''battery_level'' = Some (796 / 10) \<and>
   current_values
     (fst (snd (generate_reading (battery_device (796 / 10))
        (snd (SensorDevice ''device_0badc0de'' (LOCATIONS ! 0) [''battery_level'']
               (initial_world (stream_of [796 / 1000, 3 / 4] (1 / 2))))))))
     ''battery_level'' = Some 80 \<and>
   log (snd (snd (generate_reading (battery_device (796 / 10))
        (snd (SensorDevice ''device_0badc0de'' (LOCATIONS ! 0) [''battery_level'']
               (initial_world (stream_of [796 / 1000, 3 / 4] (1 / 2)))))))) =
     [Uniform 0 100, Uniform (- (1 / 10)) (1 / 10), Choices, Random,
      Uniform (- (1 / 10000)) (1 / 10000), Uniform (- (1 / 10000)) (1 / 10000)] \<and>
   (796 / 10 :: real) < 80"
  by (simp add: run_defs)

subsection \<open>Dashboard conversion\<close>

text \<open>
  C9 (dashboard deserialisation) at an item with a list of numbers. The conversion
  handles a \<open>Decimal\<close> only as the value of a dictionary key; called on the element of a
  list it returns the element as it is. The call raises nothing, and the item that it
  returns still contains a \<open>Decimal\<close>.
\<close>

theorem convert_keeps_Decimal_in_list:
  "convert_dynamodb_item fromisoformat
     (DictV [(''device_id'', StrV ''device_0badc0de''), (''battery_level_value'', DecimalV 80),
             (''samples'', ListV [DecimalV 1, DecimalV (5 / 2)])]) =
   Inr (DictV [(''device_id'', StrV ''device_0badc0de''), (''battery_level_value'', IntV 80),
               (''samples'', ListV [DecimalV 1, DecimalV (5 / 2)])]) \<and>
   contains_Decimal
     (DictV [(''device_id'', StrV ''device_0badc0de''), (''battery_level_value'', IntV 80),
             (''samples'', ListV [DecimalV 1, DecimalV (5 / 2)])])"
  by (simp add: decimal_mod_1_def int_of_decimal_def)

subsection \<open>Kinds that are not registered\<close>

lemma drift_loop_dom_readings:
  "drift_loop kinds cv rd w = (e, cv', rd', w') \<Longrightarrow> dom rd' \<subseteq> dom rd \<union> (set kinds \<inter> dom SENSOR_TYPES)"
proof (induction kinds arbitrary: cv rd w)
  case Nil
  then show ?case by simp
next
  case (Cons s rest)
  show ?case
  proof (cases "SENSOR_TYPES s")
    case None
    then have "drift_loop rest cv rd w = (e, cv', rd', w')" using Cons.prems by simp
    then have "dom rd' \<subseteq> dom rd \<union> (set rest \<inter> dom SENSOR_TYPES)" by (rule Cons.IH)
    then show ?thesis by auto
  next
    case (Some cfg)
    obtain d w1 where u: "uniform (- drift_factor cfg) (drift_factor cfg) w = (d, w1)"
      by (cases "uniform (- drift_factor cfg) (drift_factor cfg) w")
    show ?thesis
    proof (cases "cv s")
      case None
      then have "rd' = rd" using Cons.prems \<open>SENSOR_TYPES s = Some cfg\<close> u by (simp add: Let_def)
      then show ?thesis by auto
    next
      case (Some cur)
      obtain nv sr where "drift_loop rest (cv(s \<mapsto> nv)) (rd(s \<mapsto> sr)) w1 = (e, cv', rd', w')"
        using Cons.prems \<open>SENSOR_TYPES s = Some cfg\<close> u Some by (simp add: Let_def)
      then have "dom rd' \<subseteq> dom (rd(s \<mapsto> sr)) \<union> (set rest \<inter> dom SENSOR_TYPES)" by (rule Cons.IH)
      then show ?thesis using \<open>SENSOR_TYPES s = Some cfg\<close> by auto
    qed
  qed
qed

text \<open>With a value persisted for every registered kind of the list, the loop raises nothing.\<close>

lemma drift_loop_no_KeyError:
  "set kinds \<inter> dom SENSOR_TYPES \<subseteq> dom cv \<Longrightarrow> drift_loop kinds cv rd w = (e, cv', rd', w') \<Longrightarrow>
     e = None"
proof (induction kinds arbitrary: cv rd w)
  case Nil
  then show ?case by simp
next
  case (Cons s rest)
  show ?case
  proof (cases "SENSOR_TYPES s")
    case None
    then have "drift_loop rest cv rd w = (e, cv', rd', w')" using Cons.prems by simp
    moreover have "set rest \<inter> dom SENSOR_TYPES \<subseteq> dom cv" using Cons.prems(1) by auto
    ultimately show ?thesis using Cons.IH by blast
  next
    case (Some cfg)
    obtain d w1 where u: "uniform (- drift_factor cfg) (drift_factor cfg) w = (d, w1)"
      by (cases "uniform (- drift_factor cfg) (drift_factor cfg) w")
    have "s \<in> dom cv" using Cons.prems(1) Some by auto
    then obtain cur where cur: "cv s = Some cur" by auto
    obtain nv sr where step: "drift_loop rest (cv(s \<mapsto> nv)) (rd(s \<mapsto> sr)) w1 = (e, cv', rd', w')"
      using Cons.prems(2) Some u cur by (simp add: Let_def)
    have "set rest \<inter> dom SENSOR_TYPES \<subseteq> dom (cv(s \<mapsto> nv))" using Cons.prems(1) by auto
    then show ?thesis using step Cons.IH by blast
  qed
qed

lemma choice_Inr:
  assumes "unit_stream w" "seq \<noteq> []"
  shows "fst (choice seq w) = Inr (seq ! nat \<lfloor>stream w (pos w) * real (length seq)\<rfloor>) \<and>
         nat \<lfloor>stream w (pos w) * real (length seq)\<rfloor> < length seq"
proof -
  let ?u = "stream w (pos w)" and ?n = "length seq"
  have u: "0 \<le> ?u" "?u < 1" using assms(1) by (auto simp: unit_stream_def)
  have n: "0 < real ?n" using assms(2) by simp
  have "?u * real ?n < real ?n" using u(2) n by simp
  then have "\<lfloor>?u * real ?n\<rfloor> < int ?n" by (simp add: floor_less_iff)
  then have i: "nat \<lfloor>?u * real ?n\<rfloor> < ?n" using n by linarith
  then show ?thesis using assms(2) by (simp add: choice_def draw_def Let_def)
qed

lemma anomaly_no_error:
  assumes "unit_stream w" "kinds \<noteq> []" "dom rd \<subseteq> dom SENSOR_TYPES"
  shows "\<exists>rd'. fst (anomaly kinds rd w) = Inr rd'"
proof -
  obtain a w1 where r: "random w = (a, w1)" by (cases "random w")
  have u1: "unit_stream w1" using r assms(1) by (simp add: random_frame unit_stream_def)
  obtain c w2 where c: "choice kinds w1 = (c, w2)" by (cases "choice kinds w1")
  obtain k where k: "c = Inr k" using choice_Inr [OF u1 assms(2)] c by auto
  obtain b w3 where b: "random w2 = (b, w3)" by (cases "random w2")
  show ?thesis
  proof (cases "rd k")
    case None
    then show ?thesis using r c k by (simp add: anomaly_def)
  next
    case (Some sr)
    then have "k \<in> dom SENSOR_TYPES" using assms(3) by auto
    then obtain cfg where "SENSOR_TYPES k = Some cfg" by auto
    then show ?thesis using r c k b Some by (simp add: anomaly_def)
  qed
qed

lemma anomaly_no_KeyError:
  assumes "dom rd \<subseteq> dom SENSOR_TYPES"
  shows "fst (anomaly kinds rd w) \<noteq> Inl KeyError"
  using assms
  by (auto simp: anomaly_def choice_def draw_def Let_def
      split: prod.splits if_splits sum.splits option.splits)

lemma init_values_stream:
  "init_values kinds cv w = (cv', w') \<Longrightarrow> stream w' = stream w"
proof (induction kinds arbitrary: cv w)
  case Nil
  then show ?case by simp
next
  case (Cons s rest)
  show ?case
  proof (cases "SENSOR_TYPES s")
    case None
    with Cons show ?thesis by simp
  next
    case (Some cfg)
    obtain v w1 where u: "uniform (cfg_min cfg) (cfg_max cfg) w = (v, w1)"
      by (cases "uniform (cfg_min cfg) (cfg_max cfg) w")
    have "init_values rest (cv(s \<mapsto> v)) w1 = (cv', w')" using Cons.prems Some u by simp
    then have "stream w' = stream w1" by (rule Cons.IH)
    then show ?thesis using u by (simp add: uniform_frame)
  qed
qed

lemma generate_reading_stream:
  assumes "generate_reading dev w = (res, dev', w')"
  shows "stream w' = stream w"
proof -
  obtain ts w0 where n: "now_isoformat w = (ts, w0)" by (cases "now_isoformat w")
  obtain e cv rd w1 where
    l: "drift_loop (sensor_types dev) (current_values dev) Map.empty w0 = (e, cv, rd, w1)"
    by (cases "drift_loop (sensor_types dev) (current_values dev) Map.empty w0")
  obtain st w2 where c: "choices DEVICE_STATUSES STATUS_WEIGHTS w1 = (st, w2)"
    by (cases "choices DEVICE_STATUSES STATUS_WEIGHTS w1")
  obtain a w3 where a: "anomaly (sensor_types dev) rd w2 = (a, w3)"
    by (cases "anomaly (sensor_types dev) rd w2")
  have s: "stream w0 = stream w" "stream w1 = stream w0" "stream w2 = stream w1" "stream w3 = stream w2"
    using now_isoformat_frame [OF n] drift_loop_stream [OF l] choices_frame [OF c] anomaly_stream [OF a]
    by simp_all
  show ?thesis
  proof (cases e)
    case (Some err)
    then show ?thesis using assms n l s by (simp add: generate_reading_def)
  next
    case None
    show ?thesis
    proof (cases a)
      case (Inl err)
      then show ?thesis using assms n l c a None s by (simp add: generate_reading_def)
    next
      case (Inr rd')
      obtain r w4 where b: "reading_data dev ts rd' st w3 = (r, w4)"
        by (cases "reading_data dev ts rd' st w3")
      have "stream w4 = stream w3" using reading_data_frame [OF b] by simp
      then show ?thesis using assms n l c a None Inr b s by (simp add: generate_reading_def)
    qed
  qed
qed

lemma ticks_frame:
  "ticks n dev w = (dev', w') \<Longrightarrow>
     stream w' = stream w \<and> sensor_types dev' = sensor_types dev \<and>
     dom (current_values dev') = dom (current_values dev)"
proof (induction n arbitrary: dev w)
  case 0
  then show ?case by simp
next
  case (Suc n)
  obtain res d1 w1 where g: "generate_reading dev w = (res, d1, w1)"
    by (cases "generate_reading dev w")
  obtain e cv rd w2 where
    l: "drift_loop (sensor_types dev) (current_values dev) Map.empty (snd (now_isoformat w)) = (e, cv, rd, w2)"
    by (cases "drift_loop (sensor_types dev) (current_values dev) Map.empty (snd (now_isoformat w))")
  have d1: "d1 = dev\<lparr>current_values := cv\<rparr>" using generate_reading_persists [OF g] l by simp
  have "ticks n d1 w1 = (dev', w')" using Suc.prems g by simp
  then have "stream w' = stream w1 \<and> sensor_types dev' = sensor_types d1 \<and>
     dom (current_values dev') = dom (current_values d1)" by (rule Suc.IH)
  then show ?case using generate_reading_stream [OF g] drift_loop_dom [OF l] d1 by simp
qed

text \<open>A well-formed device with at least one kind, on a stream in \<open>[0, 1)\<close>, returns a reading.\<close>

lemma generate_reading_returns:
  assumes "well_formed dev" "unit_stream w" "sensor_types dev \<noteq> []"
  shows "\<exists>r. fst (generate_reading dev w) = Inr r"
proof -
  obtain ts w0 where n: "now_isoformat w = (ts, w0)" by (cases "now_isoformat w")
  obtain e cv rd w1 where
    l: "drift_loop (sensor_types dev) (current_values dev) Map.empty w0 = (e, cv, rd, w1)"
    by (cases "drift_loop (sensor_types dev) (current_values dev) Map.empty w0")
  obtain st w2 where c: "choices DEVICE_STATUSES STATUS_WEIGHTS w1 = (st, w2)"
    by (cases "choices DEVICE_STATUSES STATUS_WEIGHTS w1")
  have e: "e = None" using drift_loop_no_KeyError [OF _ l] assms(1) by (simp add: well_formed_def)
  have "stream w2 = stream w"
    using now_isoformat_frame [OF n] drift_loop_stream [OF l] choices_frame [OF c] by simp
  then have u: "unit_stream w2" using assms(2) by (simp add: unit_stream_def)
  have "dom rd \<subseteq> dom SENSOR_TYPES" using drift_loop_dom_readings [OF l] by auto
  from anomaly_no_error [OF u assms(3) this] obtain rd' where
    a: "fst (anomaly (sensor_types dev) rd w2) = Inr rd'" by blast
  obtain w3 where a': "anomaly (sensor_types dev) rd w2 = (Inr rd', w3)"
    using a by (cases "anomaly (sensor_types dev) rd w2") simp
  show ?thesis using n l e c a' by (simp add: generate_reading_def split: prod.splits)
qed

lemma generate_reading_no_KeyError:
  assumes "well_formed dev"
  shows "fst (generate_reading dev w) \<noteq> Inl KeyError"
proof -
  obtain ts w0 where n: "now_isoformat w = (ts, w0)" by (cases "now_isoformat w")
  obtain e cv rd w1 where
    l: "drift_loop (sensor_types dev) (current_values dev) Map.empty w0 = (e, cv, rd, w1)"
    by (cases "drift_loop (sensor_types dev) (current_values dev) Map.empty w0")
  obtain st w2 where c: "choices DEVICE_STATUSES STATUS_WEIGHTS w1 = (st, w2)"
    by (cases "choices DEVICE_STATUSES STATUS_WEIGHTS w1")
  have e: "e = None" using drift_loop_no_KeyError [OF _ l] assms(1) by (simp add: well_formed_def)
  have "dom rd \<subseteq> dom SENSOR_TYPES" using drift_loop_dom_readings [OF l] by auto
  then have "fst (anomaly (sensor_types dev) rd w2) \<noteq> Inl KeyError" by (rule anomaly_no_KeyError)
  then show ?thesis using n l e c
    by (auto simp: generate_reading_def split: prod.splits sum.splits)
qed

text \<open>
  C4 (kinds that are not registered), as the code has it. Creation passes over a kind
  that is not registered: for every list of kinds it constructs the device, which lists
  the kinds as given and has a persisted value for exactly the registered ones. No call
  of \<open>generate_reading\<close> on the device, after any number of earlier calls, raises
  \<open>KeyError\<close>; and when the list of kinds is not empty the call returns a reading.
\<close>

theorem unregistered_kinds_are_passed_over:
  assumes "unit_stream w"
    and "SensorDevice did loc kinds w = (dev, w1)"
    and "ticks n dev w1 = (dev_n, w_n)"
  shows "sensor_types dev = kinds \<and>
         dom (current_values dev) = set kinds \<inter> dom SENSOR_TYPES \<and>
         fst (generate_reading dev_n w_n) \<noteq> Inl KeyError \<and>
         (kinds \<noteq> [] \<longrightarrow> (\<exists>r. fst (generate_reading dev_n w_n) = Inr r))"
proof -
  obtain cv w2 where i: "init_values kinds Map.empty w = (cv, w2)"
    by (cases "init_values kinds Map.empty w")
  have w1: "w1 = w2" using assms(2) i by (simp add: SensorDevice_def)
  have s: "dom (current_values dev) = set kinds \<inter> dom SENSOR_TYPES" "sensor_types dev = kinds"
    using SensorDevice_in_range [OF assms(1,2)] by simp_all
  have t: "stream w_n = stream w1" "sensor_types dev_n = kinds"
    "dom (current_values dev_n) = set kinds \<inter> dom SENSOR_TYPES"
    using ticks_frame [OF assms(3)] s by simp_all
  have "stream w_n = stream w" using t(1) w1 init_values_stream [OF i] by simp
  then have u: "unit_stream w_n" using assms(1) by (simp add: unit_stream_def)
  have wf: "well_formed dev_n" using t(2,3) by (simp add: well_formed_def)
  have "\<exists>r. fst (generate_reading dev_n w_n) = Inr r" if "kinds \<noteq> []"
    using generate_reading_returns [OF wf u] that t(2) by simp
  then show ?thesis using s generate_reading_no_KeyError [OF wf] by blast
qed

text \<open>
  A device created with the kinds \<open>co2_level\<close>, which is not registered, and
  \<open>battery_level\<close>: it has a value for the battery only, and its second call returns a
  reading.
\<close>

theorem unregistered_kinds_are_passed_over_witness:
  "dom (current_values (fst (SensorDevice ''device_0badc0de'' (LOCATIONS ! 0)
          [''co2_level'', ''battery_level''] (initial_world (stream_of [] (1 / 2)))))) =
     {''battery_level''} \<and>
   (\<exists>r. fst (generate_reading
      (fst (ticks (Suc 0)
         (fst (SensorDevice ''device_0badc0de'' (LOCATIONS ! 0)
            [''co2_level'', ''battery_level''] (initial_world (stream_of [] (1 / 2)))))
         (snd (SensorDevice ''device_0badc0de'' (LOCATIONS ! 0)
            [''co2_level'', ''battery_level''] (initial_world (stream_of [] (1 / 2)))))))
      (snd (ticks (Suc 0)
         (fst (SensorDevice ''device_0badc0de'' (LOCATIONS ! 0)
            [''co2_level'', ''battery_level''] (initial_world (stream_of [] (1 / 2)))))
         (snd (SensorDevice ''device_0badc0de'' (LOCATIONS ! 0)
            [''co2_level'', ''battery_level''] (initial_world (stream_of [] (1 / 2)))))))) = Inr r)"
proof -
  let ?w = "initial_world (stream_of [] (1 / 2))"
  let ?c = "SensorDevice ''device_0badc0de'' (LOCATIONS ! 0) [''co2_level'', ''battery_level''] ?w"
  let ?t = "ticks (Suc 0) (fst ?c) (snd ?c)"
  have 1: "unit_stream ?w" by (simp add: unit_stream_stream_of)
  have 2: "?c = (fst ?c, snd ?c)" by simp
  have 3: "?t = (fst ?t, snd ?t)" by simp
  have 4: "set [''co2_level'', ''battery_level''] \<inter> dom SENSOR_TYPES = {''battery_level''}"
    by (auto simp: SENSOR_TYPES_def SENSOR_TYPES_items_def split: if_splits)
  show ?thesis using unregistered_kinds_are_passed_over [OF 1 2 3] 4 by simp
qed

text \<open>
  The claim as the specification has it says that creation fails on a kind that is not
  registered. It does not: the kind \<open>co2_level\<close> is not registered, and creation
  returns a device that lists it and has no persisted value.
\<close>

theorem creation_accepts_unregistered_kind:
  "SENSOR_TYPES ''co2_level'' = None \<and>
   fst (SensorDevice ''device_0badc0de'' (LOCATIONS ! 0) [''co2_level'']
          (initial_world (stream_of [] (1 / 2)))) =
     device_with [''co2_level''] Map.empty"
  by (simp add: run_defs)

subsection \<open>The trace of draws\<close>

lemma drift_calls_Cons:
  "drift_calls (s # rest) =
     (case SENSOR_TYPES s of None \<Rightarrow> [] | Some cfg \<Rightarrow> [Uniform (- drift_factor cfg) (drift_factor cfg)])
       @ drift_calls rest"
  by (simp add: drift_calls_def)

lemma drift_calls_registered:
  "set kinds \<subseteq> dom SENSOR_TYPES \<Longrightarrow> length (drift_calls kinds) = length kinds"
  by (induction kinds) (auto simp: drift_calls_def)

lemma drift_loop_trace:
  "drift_loop kinds cv rd w = (None, cv', rd', w') \<Longrightarrow>
     pos w' = pos w + length (drift_calls kinds) \<and> log w' = log w @ drift_calls kinds \<and>
     dom rd' = dom rd \<union> (set kinds \<inter> dom SENSOR_TYPES)"
proof (induction kinds arbitrary: cv rd w)
  case Nil
  then show ?case by (simp add: drift_calls_def)
next
  case (Cons s rest)
  show ?case
  proof (cases "SENSOR_TYPES s")
    case None
    then have "drift_loop rest cv rd w = (None, cv', rd', w')" using Cons.prems by simp
    then have "pos w' = pos w + length (drift_calls rest) \<and> log w' = log w @ drift_calls rest \<and>
       dom rd' = dom rd \<union> (set rest \<inter> dom SENSOR_TYPES)" by (rule Cons.IH)
    then show ?thesis using None by (auto simp: drift_calls_Cons)
  next
    case (Some cfg)
    obtain d w1 where u: "uniform (- drift_factor cfg) (drift_factor cfg) w = (d, w1)"
      by (cases "uniform (- drift_factor cfg) (drift_factor cfg) w")
    have w1: "pos w1 = Suc (pos w)" "log w1 = log w @ [Uniform (- drift_factor cfg) (drift_factor cfg)]"
      using uniform_frame [OF u] by simp_all
    show ?thesis
    proof (cases "cv s")
      case None
      then show ?thesis using Cons.prems \<open>SENSOR_TYPES s = Some cfg\<close> u by (simp add: Let_def)
    next
      case cur: (Some cur)
      obtain nv sr where "drift_loop rest (cv(s \<mapsto> nv)) (rd(s \<mapsto> sr)) w1 = (None, cv', rd', w')"
        using Cons.prems Some u cur by (simp add: Let_def)
      then have "pos w' = pos w1 + length (drift_calls rest) \<and> log w' = log w1 @ drift_calls rest \<and>
         dom rd' = dom (rd(s \<mapsto> sr)) \<union> (set rest \<inter> dom SENSOR_TYPES)" by (rule Cons.IH)
      then show ?thesis using w1 Some by (auto simp: drift_calls_Cons)
    qed
  qed
qed

text \<open>What the anomaly branch does when it raises nothing, by the values it draws.\<close>

lemma anomaly_trace:
  assumes "anomaly kinds rd w = (Inr rd', w')"
  shows "if stream w (pos w) < 1 / 100 then
           kinds \<noteq> [] \<and> nat \<lfloor>stream w (Suc (pos w)) * real (length kinds)\<rfloor> < length kinds \<and>
           (case rd (kinds ! nat \<lfloor>stream w (Suc (pos w)) * real (length kinds)\<rfloor>) of
              None \<Rightarrow> rd' = rd \<and> pos w' = Suc (Suc (pos w)) \<and>
                       log w' = log w @ [Random, Choice (length kinds)]
            | Some sr \<Rightarrow>
                (\<exists>cfg. SENSOR_TYPES (kinds ! nat \<lfloor>stream w (Suc (pos w)) * real (length kinds)\<rfloor>) = Some cfg \<and>
                   rd' = rd(kinds ! nat \<lfloor>stream w (Suc (pos w)) * real (length kinds)\<rfloor> \<mapsto>
                           sr\<lparr>reading_value :=
                                if stream w (Suc (Suc (pos w))) < 1 / 2 then cfg_max cfg else cfg_min cfg\<rparr>)) \<and>
                pos w' = Suc (Suc (Suc (pos w))) \<and>
                log w' = log w @ [Random, Choice (length kinds), Random])
         else rd' = rd \<and> pos w' = Suc (pos w) \<and> log w' = log w @ [Random]"
  using assms unfolding anomaly_def random_def choice_def draw_def Let_def
  by (auto split: prod.splits if_splits sum.splits option.splits)

text \<open>
  C6 (trace of draws), as the code has it. A call of \<open>generate_reading\<close> that returns a
  reading makes these calls into the pseudorandom module, in this order and no others:
  one \<open>uniform\<close> per registered kind of the device's list, in list order, for the drift;
  one \<open>choices\<close> for the status; one \<open>random\<close> for the anomaly check; only when that
  value is below 0.01, one \<open>choice\<close> for the kind and, when the chosen kind is
  registered, one more \<open>random\<close> for spike or drop; then two \<open>uniform\<close> for the jitter
  of latitude and longitude. Each call uses one value of the stream.
\<close>

theorem draw_trace:
  assumes "generate_reading dev w = (Inr r, dev', w')"
  shows "let kinds = sensor_types dev;
             m = length (drift_calls kinds);
             picked = kinds ! nat \<lfloor>stream w (pos w + m + 2) * real (length kinds)\<rfloor>;
             anomaly_calls =
               (if stream w (pos w + m + 1) < 1 / 100
                then Choice (length kinds) # (if SENSOR_TYPES picked = None then [] else [Random])
                else [])
         in log w' =
              log w @ drift_calls kinds @ [Choices, Random] @ anomaly_calls @
                [Uniform (- (1 / 10000)) (1 / 10000), Uniform (- (1 / 10000)) (1 / 10000)] \<and>
            pos w' = pos w + m + 2 + length anomaly_calls + 2"
proof -
  from generate_reading_Inr [OF assms] obtain ts w0 cv rd w1 st w2 rd' w3 where
    n: "now_isoformat w = (ts, w0)" and
    l: "drift_loop (sensor_types dev) (current_values dev) Map.empty w0 = (None, cv, rd, w1)" and
    c: "choices DEVICE_STATUSES STATUS_WEIGHTS w1 = (st, w2)" and
    a: "anomaly (sensor_types dev) rd w2 = (Inr rd', w3)" and
    b: "reading_data dev ts rd' st w3 = (r, w')"
    by auto
  let ?kinds = "sensor_types dev"
  let ?m = "length (drift_calls ?kinds)"
  let ?i = "nat \<lfloor>stream w (pos w + ?m + 2) * real (length ?kinds)\<rfloor>"
  let ?ac = "if stream w (pos w + ?m + 1) < 1 / 100
                then Choice (length ?kinds) # (if SENSOR_TYPES (?kinds ! ?i) = None then [] else [Random])
                else []"
  have w0: "stream w0 = stream w" "pos w0 = pos w" "log w0 = log w"
    using now_isoformat_frame [OF n] by simp_all
  have w1: "stream w1 = stream w" "pos w1 = pos w + ?m" "log w1 = log w @ drift_calls ?kinds"
    and dom: "dom rd = set ?kinds \<inter> dom SENSOR_TYPES"
    using drift_loop_trace [OF l] drift_loop_stream [OF l] w0 by simp_all
  have w2: "stream w2 = stream w" "pos w2 = pos w + ?m + 1"
    "log w2 = log w @ drift_calls ?kinds @ [Choices]"
    using choices_frame [OF c] w1 by simp_all
  have reg: "(rd k = None) = (SENSOR_TYPES k = None)" if "k \<in> set ?kinds" for k
    using dom that by (metis Int_iff domIff)
  have w3: "pos w3 = pos w2 + 1 + length ?ac \<and> log w3 = log w2 @ [Random] @ ?ac"
  proof (cases "stream w (pos w + ?m + 1) < 1 / 100")
    case False
    then show ?thesis using anomaly_trace [OF a] w2 by simp
  next
    case True
    then have t: "?kinds \<noteq> []" "?i < length ?kinds"
      using anomaly_trace [OF a] w2 by simp_all
    then have "?kinds ! ?i \<in> set ?kinds" by simp
    note r = reg [OF this]
    show ?thesis
    proof (cases "rd (?kinds ! ?i)")
      case None
      then show ?thesis using anomaly_trace [OF a] w2 True r by simp
    next
      case (Some sr)
      then show ?thesis using anomaly_trace [OF a] w2 True r by auto
    qed
  qed
  have w': "pos w' = Suc (Suc (pos w3))"
    "log w' = log w3 @ [Uniform (- (1 / 10000)) (1 / 10000), Uniform (- (1 / 10000)) (1 / 10000)]"
    using reading_data_frame [OF b] by simp_all
  show ?thesis unfolding Let_def using w' w3 w2 by simp
qed

text \<open>
  A battery-only device on a stream whose third value fires the anomaly: seven draws,
  the status before the anomaly check, two more for the override.
\<close>

theorem draw_trace_witness:
  "fst (generate_reading (battery_device 80)
          (initial_world (stream_of [3 / 4, 1 / 2, 1 / 200, 1 / 4, 1 / 4] (1 / 2)))) =
     Inr \<lparr>r_device_id = ''device_0badc0de'', timestamp = ''2025-01-01T00:00:00'',
          location_id = ''warehouse_a'', location_name = ''Warehouse A'',
          coords = \<lparr>latitude = 476062 / 10000, longitude = - (1223321 / 10000)\<rparr>,
          readings = [''battery_level'' \<mapsto> \<lparr>reading_value = 100, reading_unit = ''%''\<rparr>],
          status = ''operational''\<rparr> \<and>
   log (snd (snd (generate_reading (battery_device 80)
          (initial_world (stream_of [3 / 4, 1 / 2, 1 / 200, 1 / 4, 1 / 4] (1 / 2)))))) =
     [Uniform (- (1 / 10)) (1 / 10), Choices, Random, Choice 1, Random,
      Uniform (- (1 / 10000)) (1 / 10000), Uniform (- (1 / 10000)) (1 / 10000)] \<and>
   pos (snd (snd (generate_reading (battery_device 80)
          (initial_world (stream_of [3 / 4, 1 / 2, 1 / 200, 1 / 4, 1 / 4] (1 / 2)))))) = 7"
proof -
  let ?w = "initial_world (stream_of [3 / 4, 1 / 2, 1 / 200, 1 / 4, 1 / 4] (1 / 2))"
  let ?g = "generate_reading (battery_device 80) ?w"
  let ?r = "\<lparr>r_device_id = ''device_0badc0de'', timestamp = ''2025-01-01T00:00:00'',
          location_id = ''warehouse_a'', location_name = ''Warehouse A'',
          coords = \<lparr>latitude = 476062 / 10000, longitude = - (1223321 / 10000)\<rparr>,
          readings = [''battery_level'' \<mapsto> \<lparr>reading_value = 100, reading_unit = ''%''\<rparr>],
          status = ''operational''\<rparr>"
  have r: "fst ?g = Inr ?r" by (simp add: run_defs)
  then have e: "?g = (Inr ?r, fst (snd ?g), snd (snd ?g))" by (metis prod.collapse)
  have d: "drift_calls [''battery_level''] = [Uniform (- (1 / 10)) (1 / 10)]"
    by (simp add: drift_calls_def SENSOR_TYPES_def SENSOR_TYPES_items_def)
  have k: "sensor_types (battery_device 80) = [''battery_level'']"
    by (simp add: battery_device_def device_with_def)
  have s: "SENSOR_TYPES ''battery_level'' \<noteq> None"
    by (simp add: SENSOR_TYPES_def SENSOR_TYPES_items_def)
  have w: "pos ?w = 0" "log ?w = []" "stream ?w = stream_of [3 / 4, 1 / 2, 1 / 200, 1 / 4, 1 / 4] (1 / 2)"
    by (simp_all add: initial_world_def)
  show ?thesis using draw_trace [OF e] r unfolding Let_def k d w
    by (simp add: stream_of_def s)
qed

text \<open>
  The claim as the specification has it puts the anomaly check before the status
  selection and allows no other draw. On the constant stream 1/2 the call of a
  battery-only device draws the status (\<open>choices\<close>) before the anomaly check
  (\<open>random\<close>); on a stream that fires the anomaly it makes seven draws, not five.
\<close>

theorem draw_trace_counterexample:
  "log (snd (snd (generate_reading (battery_device 80) (initial_world (stream_of [] (1 / 2)))))) =
     [Uniform (- (1 / 10)) (1 / 10), Choices, Random,
      Uniform (- (1 / 10000)) (1 / 10000), Uniform (- (1 / 10000)) (1 / 10000)] \<and>
   log (snd (snd (generate_reading (battery_device 80) (initial_world (stream_of [] (1 / 2)))))) \<noteq>
     [Uniform (- (1 / 10)) (1 / 10), Random, Choices,
      Uniform (- (1 / 10000)) (1 / 10000), Uniform (- (1 / 10000)) (1 / 10000)] \<and>
   length (log (snd (snd (generate_reading (battery_device 80)
          (initial_world (stream_of [3 / 4, 1 / 2, 1 / 200, 1 / 4, 1 / 4] (1 / 2))))))) = 7"
  by (simp add: run_defs)

subsection \<open>The anomaly override\<close>

text \<open>Readings built from nothing report exactly the persisted values of the device.\<close>

lemma drift_loop_drift_reading:
  assumes "drift_loop (sensor_types dev) (current_values dev) Map.empty w0 = (None, cv, rd, w1)"
  shows "rd k = drift_reading (dev\<lparr>current_values := cv\<rparr>) k"
proof -
  have "reported (current_values dev) Map.empty" by (simp add: reported_def)
  then have rep: "reported cv rd" using assms by (rule drift_loop_reported)
  have dom: "dom rd = set (sensor_types dev) \<inter> dom SENSOR_TYPES"
    using drift_loop_trace [OF assms] by simp
  show ?thesis
  proof (cases "rd k")
    case None
    then have "k \<notin> set (sensor_types dev) \<or> SENSOR_TYPES k = None" using dom by auto
    then show ?thesis using None by (auto simp: drift_reading_def)
  next
    case (Some sr)
    then obtain cfg where c: "SENSOR_TYPES k = Some cfg" "reading_unit sr = cfg_unit cfg"
      "cv k = Some (reading_value sr)"
      using rep by (auto simp: reported_def)
    have "k \<in> set (sensor_types dev)" using Some dom by auto
    then show ?thesis using Some c by (cases sr) (simp add: drift_reading_def)
  qed
qed

text \<open>
  C3 (anomaly override). A device lists \<open>n > 0\<close> kinds, the non-empty list that its
  contract asks for and that \<open>DataGenerator\<close> builds. Let every kind of the list be
  registered and have a persisted value, and let the stream hold values of \<open>[0, 1)\<close>. Then \<open>generate_reading\<close> returns a
  reading. The value \<open>a\<close> drawn after the \<open>n\<close> drift draws and the status draw decides:
  when \<open>a < 0.01\<close>, the kind \<open>k\<close> picked by the next draw, one of the device's kinds, is
  reported at its profile's maximum when the draw after that is below 0.5 and at its
  minimum otherwise, and every other kind is reported at its persisted value; when
  \<open>a \<ge> 0.01\<close>, every kind is reported at its persisted value.
\<close>

theorem anomaly_override:
  assumes "set (sensor_types dev) \<subseteq> dom SENSOR_TYPES"
    and "sensor_types dev \<noteq> []"
    and "well_formed dev"
    and "unit_stream w"
  shows "\<exists>r dev' w'. generate_reading dev w = (Inr r, dev', w') \<and>
           (let kinds = sensor_types dev;
                p = pos w + length kinds;
                k = kinds ! nat \<lfloor>stream w (p + 2) * real (length kinds)\<rfloor>
            in if stream w (p + 1) < 1 / 100
               then k \<in> set kinds \<and>
                    (\<exists>cfg. SENSOR_TYPES k = Some cfg \<and>
                       readings r k =
                         Some \<lparr>reading_value = (if stream w (p + 3) < 1 / 2 then cfg_max cfg else cfg_min cfg),
                               reading_unit = cfg_unit cfg\<rparr>) \<and>
                    (\<forall>k'. k' \<noteq> k \<longrightarrow> readings r k' = drift_reading dev' k')
               else (\<forall>k'. readings r k' = drift_reading dev' k'))"
proof -
  obtain res dev' w' where g0: "generate_reading dev w = (res, dev', w')"
    by (cases "generate_reading dev w")
  obtain r where "res = Inr r" using generate_reading_returns [OF assms(3,4,2)] g0 by auto
  then have g: "generate_reading dev w = (Inr r, dev', w')" using g0 by simp
  from generate_reading_Inr [OF g] obtain ts w0 cv rd w1 st w2 rd' w3 where
    n: "now_isoformat w = (ts, w0)" and
    l: "drift_loop (sensor_types dev) (current_values dev) Map.empty w0 = (None, cv, rd, w1)" and
    c: "choices DEVICE_STATUSES STATUS_WEIGHTS w1 = (st, w2)" and
    a: "anomaly (sensor_types dev) rd w2 = (Inr rd', w3)" and
    b: "reading_data dev ts rd' st w3 = (r, w')" and
    d: "dev' = dev\<lparr>current_values := cv\<rparr>"
    by auto
  let ?kinds = "sensor_types dev"
  let ?p = "pos w + length ?kinds"
  let ?k = "?kinds ! nat \<lfloor>stream w (?p + 2) * real (length ?kinds)\<rfloor>"
  have m: "length (drift_calls ?kinds) = length ?kinds" using assms(1) by (rule drift_calls_registered)
  have w2: "stream w2 = stream w" "pos w2 = Suc ?p"
    using now_isoformat_frame [OF n] drift_loop_trace [OF l] drift_loop_stream [OF l]
      choices_frame [OF c] m by simp_all
  have rd: "rd k = drift_reading dev' k" for k unfolding d using l by (rule drift_loop_drift_reading)
  have rr: "readings r = rd'" using reading_data_frame [OF b] by simp
  have body: "if stream w (?p + 1) < 1 / 100
               then ?k \<in> set ?kinds \<and>
                    (\<exists>cfg. SENSOR_TYPES ?k = Some cfg \<and>
                       readings r ?k =
                         Some \<lparr>reading_value = (if stream w (?p + 3) < 1 / 2 then cfg_max cfg else cfg_min cfg),
                               reading_unit = cfg_unit cfg\<rparr>) \<and>
                    (\<forall>k'. k' \<noteq> ?k \<longrightarrow> readings r k' = drift_reading dev' k')
               else (\<forall>k'. readings r k' = drift_reading dev' k')"
  proof (cases "stream w (?p + 1) < 1 / 100")
    case False
    then have "rd' = rd" using anomaly_trace [OF a] w2 by simp
    then show ?thesis using False rr rd by simp
  next
    case True
    then have i: "nat \<lfloor>stream w (?p + 2) * real (length ?kinds)\<rfloor> < length ?kinds"
      using anomaly_trace [OF a] w2 by simp
    then have mem: "?k \<in> set ?kinds" by simp
    then obtain cfg0 where cfg0: "SENSOR_TYPES ?k = Some cfg0" using assms(1) by auto
    have "?k \<in> dom (current_values dev)" using mem cfg0 assms(3) by (auto simp: well_formed_def)
    then have "?k \<in> dom cv" using drift_loop_dom [OF l] by simp
    then obtain v where v: "cv ?k = Some v" by auto
    have sr: "rd ?k = Some \<lparr>reading_value = v, reading_unit = cfg_unit cfg0\<rparr>"
      unfolding rd using mem cfg0 v d by (simp add: drift_reading_def)
    have "readings r ?k =
         Some \<lparr>reading_value = (if stream w (?p + 3) < 1 / 2 then cfg_max cfg0 else cfg_min cfg0),
               reading_unit = cfg_unit cfg0\<rparr> \<and>
       (\<forall>k'. k' \<noteq> ?k \<longrightarrow> readings r k' = rd k')"
      using anomaly_trace [OF a] True w2 sr cfg0 rr by (auto simp: numeral_3_eq_3)
    then have "readings r ?k =
         Some \<lparr>reading_value = (if stream w (?p + 3) < 1 / 2 then cfg_max cfg0 else cfg_min cfg0),
               reading_unit = cfg_unit cfg0\<rparr>"
      and "\<forall>k'. k' \<noteq> ?k \<longrightarrow> readings r k' = drift_reading dev' k'"
      using rd by simp_all
    then show ?thesis using True mem cfg0 by simp
  qed
  show ?thesis unfolding Let_def using g body by blast
qed

text \<open>
  A device with the kinds temperature (at 20) and battery level (at 80). The anomaly
  fires (0.005), the pick 0.75 selects the second kind, the draw 0.75 selects the drop:
  the battery is reported at 0, the temperature at its persisted value, and the device
  keeps 80.
\<close>

theorem anomaly_override_witness:
  "set (sensor_types (device_with [''temperature'', ''battery_level'']
          [''temperature'' \<mapsto> 20, ''battery_level'' \<mapsto> 80])) \<subseteq> dom SENSOR_TYPES \<and>
   well_formed (device_with [''temperature'', ''battery_level'']
          [''temperature'' \<mapsto> 20, ''battery_level'' \<mapsto> 80]) \<and>
   unit_stream (initial_world (stream_of [1 / 2, 1 / 2, 1 / 2, 1 / 200, 3 / 4, 3 / 4] (1 / 2))) \<and>
   (\<exists>r dev' w'.
      generate_reading
        (device_with [''temperature'', ''battery_level''] [''temperature'' \<mapsto> 20, ''battery_level'' \<mapsto> 80])
        (initial_world (stream_of [1 / 2, 1 / 2, 1 / 2, 1 / 200, 3 / 4, 3 / 4] (1 / 2))) = (Inr r, dev', w') \<and>
      readings r ''battery_level'' = Some \<lparr>reading_value = 0, reading_unit = ''%''\<rparr> \<and>
      readings r ''temperature'' = drift_reading dev' ''temperature'' \<and>
      current_values dev' = [''temperature'' \<mapsto> 20, ''battery_level'' \<mapsto> 80])"
proof -
  let ?d = "device_with [''temperature'', ''battery_level''] [''temperature'' \<mapsto> 20, ''battery_level'' \<mapsto> 80]"
  let ?w = "initial_world (stream_of [1 / 2, 1 / 2, 1 / 2, 1 / 200, 3 / 4, 3 / 4] (1 / 2))"
  have k: "sensor_types ?d = [''temperature'', ''battery_level'']"
    "current_values ?d = [''temperature'' \<mapsto> 20, ''battery_level'' \<mapsto> 80]"
    by (simp_all add: device_with_def)
  have s: "SENSOR_TYPES ''battery_level'' =
      Some \<lparr>cfg_unit = ''%'', cfg_min = 0, cfg_max = 100, precision = 0,
            drift_factor = 1 / 10, decay = Some True\<rparr>"
    "SENSOR_TYPES ''temperature'' \<noteq> None"
    by (simp_all add: SENSOR_TYPES_def SENSOR_TYPES_items_def)
  have 1: "set (sensor_types ?d) \<subseteq> dom SENSOR_TYPES" using s by (auto simp: k)
  have 2: "sensor_types ?d \<noteq> []" by (simp add: k)
  have 3: "well_formed ?d" by (auto simp: well_formed_def k)
  have 4: "unit_stream ?w" by (simp add: unit_stream_stream_of)
  have w: "pos ?w = 0" "stream ?w = stream_of [1 / 2, 1 / 2, 1 / 2, 1 / 200, 3 / 4, 3 / 4] (1 / 2)"
    by (simp_all add: initial_world_def)
  have c: "current_values (fst (snd (generate_reading ?d ?w))) =
      [''temperature'' \<mapsto> 20, ''battery_level'' \<mapsto> 80]"
    by (simp add: run_defs)
  from anomaly_override [OF 1 2 3 4] obtain r dev' w' where
    g: "generate_reading ?d ?w = (Inr r, dev', w')" and
    o: "readings r ''battery_level'' = Some \<lparr>reading_value = 0, reading_unit = ''%''\<rparr>"
       "readings r ''temperature'' = drift_reading dev' ''temperature''"
    unfolding Let_def k w by (auto simp: stream_of_def s numeral_3_eq_3)
  have "current_values dev' = [''temperature'' \<mapsto> 20, ''battery_level'' \<mapsto> 80]"
    using c g by simp
  then show ?thesis using 1 3 4 g o by blast
qed

subsection \<open>Batches\<close>

text \<open>The accumulators of the loop only prefix what the loop produces from empty ones.\<close>

lemma batch_loop_acc:
  "batch_loop visited ds rs w =
     (case batch_loop [] ds [] w of
        (Inl e, v, w') \<Rightarrow> (Inl e, visited @ v, w')
      | (Inr rs', v, w') \<Rightarrow> (Inr (rs @ rs'), visited @ v, w'))"
proof (induction ds arbitrary: visited rs w)
  case Nil
  show ?case by simp
next
  case (Cons d ds)
  obtain u w1 where r: "random w = (u, w1)" by (cases "random w")
  show ?case
  proof (cases "u < 98 / 100")
    case False
    have "batch_loop visited (d # ds) rs w = batch_loop (visited @ [d]) ds rs w1"
      using r False by simp
    also have "\<dots> = (case batch_loop [] ds [] w1 of
        (Inl e, v, w') \<Rightarrow> (Inl e, (visited @ [d]) @ v, w')
      | (Inr rs', v, w') \<Rightarrow> (Inr (rs @ rs'), (visited @ [d]) @ v, w'))"
      by (rule Cons.IH)
    finally have lhs: "batch_loop visited (d # ds) rs w = (case batch_loop [] ds [] w1 of
        (Inl e, v, w') \<Rightarrow> (Inl e, (visited @ [d]) @ v, w')
      | (Inr rs', v, w') \<Rightarrow> (Inr (rs @ rs'), (visited @ [d]) @ v, w'))" .
    have "batch_loop [] (d # ds) [] w = batch_loop [d] ds [] w1"
      using r False by simp
    also have "\<dots> = (case batch_loop [] ds [] w1 of
        (Inl e, v, w') \<Rightarrow> (Inl e, [d] @ v, w')
      | (Inr rs', v, w') \<Rightarrow> (Inr ([] @ rs'), [d] @ v, w'))"
      by (rule Cons.IH)
    finally have rhs: "batch_loop [] (d # ds) [] w = (case batch_loop [] ds [] w1 of
        (Inl e, v, w') \<Rightarrow> (Inl e, [d] @ v, w')
      | (Inr rs', v, w') \<Rightarrow> (Inr ([] @ rs'), [d] @ v, w'))" .
    show ?thesis unfolding lhs rhs by (simp split: prod.splits sum.splits)
  next
    case True
    obtain res d' w2 where g: "generate_reading d w1 = (res, d', w2)"
      by (cases "generate_reading d w1")
    show ?thesis
    proof (cases res)
      case (Inl e)
      then show ?thesis using r True g by simp
    next
      case (Inr rd)
      have "batch_loop visited (d # ds) rs w = batch_loop (visited @ [d']) ds (rs @ [rd]) w2"
        using r True g Inr by simp
      also have "\<dots> = (case batch_loop [] ds [] w2 of
          (Inl e, v, w') \<Rightarrow> (Inl e, (visited @ [d']) @ v, w')
        | (Inr rs', v, w') \<Rightarrow> (Inr ((rs @ [rd]) @ rs'), (visited @ [d']) @ v, w'))"
        by (rule Cons.IH)
      finally have lhs: "batch_loop visited (d # ds) rs w = (case batch_loop [] ds [] w2 of
          (Inl e, v, w') \<Rightarrow> (Inl e, (visited @ [d']) @ v, w')
        | (Inr rs', v, w') \<Rightarrow> (Inr ((rs @ [rd]) @ rs'), (visited @ [d']) @ v, w'))" .
      have "batch_loop [] (d # ds) [] w = batch_loop [d'] ds [rd] w2"
        using r True g Inr by simp
      also have "\<dots> = (case batch_loop [] ds [] w2 of
          (Inl e, v, w') \<Rightarrow> (Inl e, [d'] @ v, w')
        | (Inr rs', v, w') \<Rightarrow> (Inr ([rd] @ rs'), [d'] @ v, w'))"
        by (rule Cons.IH)
      finally have rhs: "batch_loop [] (d # ds) [] w = (case batch_loop [] ds [] w2 of
          (Inl e, v, w') \<Rightarrow> (Inl e, [d'] @ v, w')
        | (Inr rs', v, w') \<Rightarrow> (Inr ([rd] @ rs'), [d'] @ v, w'))" .
      show ?thesis unfolding lhs rhs by (simp split: prod.splits sum.splits)
    qed
  qed
qed

lemma generate_batch_Nil: "generate_batch [] w = (Inr [], [], w)"
  by (simp add: generate_batch_def)

text \<open>The first device of a fleet: skipped, advanced with an error, or advanced and reported.\<close>

lemma generate_batch_skip:
  "random w = (u, w1) \<Longrightarrow> \<not> u < 98 / 100 \<Longrightarrow>
     generate_batch (d # ds) w =
       (case generate_batch ds w1 of
          (Inl e, v, w') \<Rightarrow> (Inl e, d # v, w')
        | (Inr rs, v, w') \<Rightarrow> (Inr rs, d # v, w'))"
  unfolding generate_batch_def
  by (simp add: batch_loop_acc [of "[d]"] split: prod.splits sum.splits)

lemma generate_batch_error:
  "random w = (u, w1) \<Longrightarrow> u < 98 / 100 \<Longrightarrow> generate_reading d w1 = (Inl e, d', w2) \<Longrightarrow>
     generate_batch (d # ds) w = (Inl e, d' # ds, w2)"
  unfolding generate_batch_def by simp

lemma generate_batch_report:
  "random w = (u, w1) \<Longrightarrow> u < 98 / 100 \<Longrightarrow> generate_reading d w1 = (Inr r, d', w2) \<Longrightarrow>
     generate_batch (d # ds) w =
       (case generate_batch ds w2 of
          (Inl e, v, w') \<Rightarrow> (Inl e, d' # v, w')
        | (Inr rs, v, w') \<Rightarrow> (Inr (r # rs), d' # v, w'))"
  unfolding generate_batch_def
  by (simp add: batch_loop_acc [of "[d']" _ "[r]"] split: prod.splits sum.splits)

text \<open>A fleet in two parts: the second part runs in the world that the first part leaves.\<close>

lemma generate_batch_append:
  "generate_batch (xs @ ys) w =
     (case generate_batch xs w of
        (Inl e, xs', w1) \<Rightarrow> (Inl e, xs' @ ys, w1)
      | (Inr rs1, xs', w1) \<Rightarrow>
          (case generate_batch ys w1 of
             (Inl e, ys', w2) \<Rightarrow> (Inl e, xs' @ ys', w2)
           | (Inr rs2, ys', w2) \<Rightarrow> (Inr (rs1 @ rs2), xs' @ ys', w2)))"
proof (induction xs arbitrary: w)
  case Nil
  show ?case by (simp add: generate_batch_Nil split: prod.splits sum.splits)
next
  case (Cons d xs)
  obtain u w1 where r: "random w = (u, w1)" by (cases "random w")
  show ?case
  proof (cases "u < 98 / 100")
    case False
    show ?thesis
      using generate_batch_skip [OF r False, of d "xs @ ys"] generate_batch_skip [OF r False, of d xs]
        Cons.IH [of w1]
      by (simp split: prod.splits sum.splits)
  next
    case True
    obtain res d' w2 where g: "generate_reading d w1 = (res, d', w2)"
      by (cases "generate_reading d w1")
    show ?thesis
    proof (cases res)
      case (Inl e)
      then show ?thesis
        using generate_batch_error [OF r True, of d e d' w2 "xs @ ys"]
          generate_batch_error [OF r True, of d e d' w2 xs] g
        by simp
    next
      case (Inr rd)
      then show ?thesis
        using generate_batch_report [OF r True, of d rd d' w2 "xs @ ys"]
          generate_batch_report [OF r True, of d rd d' w2 xs] g Cons.IH [of w2]
        by (simp split: prod.splits sum.splits)
    qed
  qed
qed

lemma generate_reading_ids:
  assumes "generate_reading d w = (res, d', w')"
  shows "device_id d' = device_id d \<and> (\<forall>r. res = Inr r \<longrightarrow> r_device_id r = device_id d)"
proof -
  have "d' = d\<lparr>current_values := current_values d'\<rparr>"
    using generate_reading_persists [OF assms] by simp
  then have i: "device_id d' = device_id d" by (metis device.select_convs(1) device.surjective device.update_convs(4))
  have "r_device_id r = device_id d" if "res = Inr r" for r
  proof -
    have g: "generate_reading d w = (Inr r, d', w')" using assms that by simp
    from generate_reading_Inr [OF g] obtain ts rd' st w3 where
      "reading_data d ts rd' st w3 = (r, w')" by auto
    from reading_data_frame [OF this] show ?thesis by simp
  qed
  then show ?thesis using i by blast
qed

lemma generate_batch_order:
  "generate_batch ds w = (res, ds', w') \<Longrightarrow>
     map device_id ds' = map device_id ds \<and>
     (\<forall>rs. res = Inr rs \<longrightarrow> subseq (map r_device_id rs) (map device_id ds))"
proof (induction ds arbitrary: w res ds' w')
  case Nil
  then show ?case by (auto simp: generate_batch_Nil)
next
  case (Cons d ds)
  obtain u w1 where r: "random w = (u, w1)" by (cases "random w")
  show ?case
  proof (cases "u < 98 / 100")
    case False
    obtain res0 v w0 where t: "generate_batch ds w1 = (res0, v, w0)"
      by (cases "generate_batch ds w1")
    have ih: "map device_id v = map device_id ds \<and>
       (\<forall>rs. res0 = Inr rs \<longrightarrow> subseq (map r_device_id rs) (map device_id ds))"
      using t by (rule Cons.IH)
    have "res = res0 \<and> ds' = d # v"
      using generate_batch_skip [OF r False, of d ds] t Cons.prems by (cases res0) simp_all
    then show ?thesis using ih by auto
  next
    case True
    obtain rg d' w2 where g: "generate_reading d w1 = (rg, d', w2)"
      by (cases "generate_reading d w1")
    note ids = generate_reading_ids [OF g]
    show ?thesis
    proof (cases rg)
      case (Inl e)
      then have "res = Inl e \<and> ds' = d' # ds"
        using generate_batch_error [OF r True, of d e d' w2 ds] g Cons.prems by simp
      then show ?thesis using ids by simp
    next
      case (Inr rd)
      obtain res0 v w0 where t: "generate_batch ds w2 = (res0, v, w0)"
        by (cases "generate_batch ds w2")
      have ih: "map device_id v = map device_id ds \<and>
         (\<forall>rs. res0 = Inr rs \<longrightarrow> subseq (map r_device_id rs) (map device_id ds))"
        using t by (rule Cons.IH)
      have "ds' = d' # v \<and> (case res0 of Inl e \<Rightarrow> res = Inl e | Inr rs \<Rightarrow> res = Inr (rd # rs))"
        using generate_batch_report [OF r True, of d rd d' w2 ds] g Inr t Cons.prems
        by (cases res0) simp_all
      then show ?thesis using ih ids Inr by (cases res0) auto
    qed
  qed
qed

text \<open>
  The status selection is the only call of \<open>random.choices\<close>, and every call of
  \<open>generate_reading\<close> that returns makes it once: the log counts the calls.
\<close>

lemma drift_loop_no_choices:
  "drift_loop kinds cv rd w = (e, cv', rd', w') \<Longrightarrow>
     count_list (log w') Choices = count_list (log w) Choices"
proof (induction kinds arbitrary: cv rd w)
  case Nil
  then show ?case by simp
next
  case (Cons s rest)
  show ?case
  proof (cases "SENSOR_TYPES s")
    case None
    with Cons show ?thesis by simp
  next
    case (Some cfg)
    obtain d w1 where u: "uniform (- drift_factor cfg) (drift_factor cfg) w = (d, w1)"
      by (cases "uniform (- drift_factor cfg) (drift_factor cfg) w")
    have w1: "count_list (log w1) Choices = count_list (log w) Choices"
      using uniform_frame [OF u] by simp
    show ?thesis
    proof (cases "cv s")
      case None
      then show ?thesis using Cons.prems \<open>SENSOR_TYPES s = Some cfg\<close> u w1 by (simp add: Let_def)
    next
      case cur: (Some cur)
      obtain nv sr where "drift_loop rest (cv(s \<mapsto> nv)) (rd(s \<mapsto> sr)) w1 = (e, cv', rd', w')"
        using Cons.prems Some u cur by (simp add: Let_def)
      then have "count_list (log w') Choices = count_list (log w1) Choices" by (rule Cons.IH)
      then show ?thesis using w1 by simp
    qed
  qed
qed

lemma anomaly_no_choices:
  "anomaly kinds rd w = (res, w') \<Longrightarrow> count_list (log w') Choices = count_list (log w) Choices"
  unfolding anomaly_def random_def choice_def draw_def Let_def
  by (auto split: prod.splits if_splits sum.splits option.splits)

lemma generate_reading_one_status_draw:
  assumes "generate_reading d w = (Inr r, d', w')"
  shows "count_list (log w') Choices = Suc (count_list (log w) Choices)"
proof -
  from generate_reading_Inr [OF assms] obtain ts w0 cv rd w1 st w2 rd' w3 where
    n: "now_isoformat w = (ts, w0)" and
    l: "drift_loop (sensor_types d) (current_values d) Map.empty w0 = (None, cv, rd, w1)" and
    c: "choices DEVICE_STATUSES STATUS_WEIGHTS w1 = (st, w2)" and
    a: "anomaly (sensor_types d) rd w2 = (Inr rd', w3)" and
    b: "reading_data d ts rd' st w3 = (r, w')"
    by auto
  show ?thesis
    using now_isoformat_frame [OF n] drift_loop_no_choices [OF l] choices_frame [OF c]
      anomaly_no_choices [OF a] reading_data_frame [OF b]
    by simp
qed

lemma generate_batch_status_draws:
  "generate_batch ds w = (Inr rs, ds', w') \<Longrightarrow>
     count_list (log w') Choices = count_list (log w) Choices + length rs \<and> length rs \<le> length ds"
proof (induction ds arbitrary: w rs ds' w')
  case Nil
  then show ?case by (auto simp: generate_batch_Nil)
next
  case (Cons d ds)
  obtain u w1 where r: "random w = (u, w1)" by (cases "random w")
  have w1: "count_list (log w1) Choices = count_list (log w) Choices"
    using random_frame [OF r] by simp
  show ?case
  proof (cases "u < 98 / 100")
    case False
    obtain res0 v w0 where t: "generate_batch ds w1 = (res0, v, w0)"
      by (cases "generate_batch ds w1")
    have "res0 = Inr rs \<and> w0 = w'"
      using generate_batch_skip [OF r False, of d ds] t Cons.prems by (cases res0) simp_all
    then have "generate_batch ds w1 = (Inr rs, v, w')" using t by simp
    then have "count_list (log w') Choices = count_list (log w1) Choices + length rs \<and>
       length rs \<le> length ds" by (rule Cons.IH)
    then show ?thesis using w1 by simp
  next
    case True
    obtain rg d' w2 where g: "generate_reading d w1 = (rg, d', w2)"
      by (cases "generate_reading d w1")
    show ?thesis
    proof (cases rg)
      case (Inl e)
      then show ?thesis
        using generate_batch_error [OF r True, of d e d' w2 ds] g Cons.prems by simp
    next
      case (Inr rd)
      have w2: "count_list (log w2) Choices = Suc (count_list (log w1) Choices)"
        using generate_reading_one_status_draw g Inr by blast
      obtain res0 v w0 where t: "generate_batch ds w2 = (res0, v, w0)"
        by (cases "generate_batch ds w2")
      obtain rs0 where rs0: "res0 = Inr rs0" "rs = rd # rs0" "w0 = w'"
        using generate_batch_report [OF r True, of d rd d' w2 ds] g Inr t Cons.prems
        by (cases res0) simp_all
      have "generate_batch ds w2 = (Inr rs0, v, w')" using t rs0 by simp
      then have "count_list (log w') Choices = count_list (log w2) Choices + length rs0 \<and>
         length rs0 \<le> length ds" by (rule Cons.IH)
      then show ?thesis using w1 w2 rs0 by simp
    qed
  qed
qed

text \<open>
  C5 (\<open>generate_batch\<close>). Take any device \<open>d\<close> of a fleet, with the devices \<open>xs\<close>
  before it and \<open>ys\<close> after it, in a call in which the other devices raise nothing.
  One value \<open>u\<close> is drawn for \<open>d\<close> in the world that \<open>xs\<close> leaves. When \<open>u < 0.98\<close>,
  \<open>generate_reading\<close> runs once on \<open>d\<close>; its reading stands in the batch after the
  readings of \<open>xs\<close> and before those of \<open>ys\<close>, and its device state takes the place of
  \<open>d\<close>. Otherwise \<open>d\<close> is skipped: it is unchanged, nothing of it is in the batch, and
  the call goes on. In every returned batch the device ids of the readings are a
  subsequence of the device ids of the fleet, and the call has made as many status
  draws as the batch has readings, at most one per device: \<open>generate_reading\<close> ran
  once for each reading of the batch and for no other device.
\<close>

theorem generate_batch_device:
  assumes "generate_batch xs w = (Inr rs1, xs', w1)"
    and "random w1 = (u, w2)"
    and "generate_reading d w2 = (res, d', w3)"
    and "generate_batch ys (if u < 98 / 100 then w3 else w2) = (Inr rs2, ys', w4)"
  shows "generate_batch (xs @ d # ys) w =
           (if u < 98 / 100
            then (case res of
                    Inl e \<Rightarrow> (Inl e, xs' @ d' # ys, w3)
                  | Inr r \<Rightarrow> (Inr (rs1 @ r # rs2), xs' @ d' # ys', w4))
            else (Inr (rs1 @ rs2), xs' @ d # ys', w4)) \<and>
         (\<forall>rs. fst (generate_batch (xs @ d # ys) w) = Inr rs \<longrightarrow>
            subseq (map r_device_id rs) (map device_id (xs @ d # ys)) \<and>
            length rs \<le> length (xs @ d # ys) \<and>
            count_list (log (snd (snd (generate_batch (xs @ d # ys) w)))) Choices =
              count_list (log w) Choices + length rs)"
proof -
  have step: "generate_batch (d # ys) w1 =
           (if u < 98 / 100
            then (case res of
                    Inl e \<Rightarrow> (Inl e, d' # ys, w3)
                  | Inr r \<Rightarrow> (Inr (r # rs2), d' # ys', w4))
            else (Inr rs2, d # ys', w4))"
  proof (cases "u < 98 / 100")
    case False
    then show ?thesis using generate_batch_skip [OF assms(2) False, of d ys] assms(4) by simp
  next
    case True
    show ?thesis
    proof (cases res)
      case (Inl e)
      then show ?thesis using generate_batch_error [OF assms(2) True, of d e d' w3 ys] assms(3) True
        by simp
    next
      case (Inr r)
      then show ?thesis
        using generate_batch_report [OF assms(2) True, of d r d' w3 ys] assms(3,4) True by simp
    qed
  qed
  have 1: "generate_batch (xs @ d # ys) w =
           (if u < 98 / 100
            then (case res of
                    Inl e \<Rightarrow> (Inl e, xs' @ d' # ys, w3)
                  | Inr r \<Rightarrow> (Inr (rs1 @ r # rs2), xs' @ d' # ys', w4))
            else (Inr (rs1 @ rs2), xs' @ d # ys', w4))"
    by (simp add: generate_batch_append [of xs "d # ys" w] assms(1) step split: sum.splits)
  obtain rb db wb where b: "generate_batch (xs @ d # ys) w = (rb, db, wb)"
    by (cases "generate_batch (xs @ d # ys) w")
  have 2: "\<forall>rs. fst (generate_batch (xs @ d # ys) w) = Inr rs \<longrightarrow>
            subseq (map r_device_id rs) (map device_id (xs @ d # ys)) \<and>
            length rs \<le> length (xs @ d # ys) \<and>
            count_list (log (snd (snd (generate_batch (xs @ d # ys) w)))) Choices =
              count_list (log w) Choices + length rs"
  proof (intro allI impI)
    fix rs
    assume "fst (generate_batch (xs @ d # ys) w) = Inr rs"
    then have b': "generate_batch (xs @ d # ys) w = (Inr rs, db, wb)" using b by simp
    show "subseq (map r_device_id rs) (map device_id (xs @ d # ys)) \<and>
            length rs \<le> length (xs @ d # ys) \<and>
            count_list (log (snd (snd (generate_batch (xs @ d # ys) w)))) Choices =
              count_list (log w) Choices + length rs"
      using generate_batch_order [OF b'] generate_batch_status_draws [OF b'] b' by simp
  qed
  show ?thesis using 1 2 by (rule conjI)
qed

text \<open>
  A fleet of three battery-only devices. The draw for the second device is 0.99: it is
  skipped and unchanged, and the batch holds the readings of the first and the third
  device, in that order.
\<close>

theorem generate_batch_device_witness:
  "map r_device_id (projr (fst (generate_batch
      [(battery_device 80)\<lparr>device_id := ''device_a''\<rparr>,
       (battery_device 70)\<lparr>device_id := ''device_b''\<rparr>,
       (battery_device 60)\<lparr>device_id := ''device_c''\<rparr>]
      (initial_world (stream_of [1 / 2, 1 / 2, 1 / 2, 1 / 2, 1 / 2, 1 / 2, 99 / 100] (1 / 2)))))) =
     [''device_a'', ''device_c''] \<and>
   fst (snd (generate_batch
      [(battery_device 80)\<lparr>device_id := ''device_a''\<rparr>,
       (battery_device 70)\<lparr>device_id := ''device_b''\<rparr>,
       (battery_device 60)\<lparr>device_id := ''device_c''\<rparr>]
      (initial_world (stream_of [1 / 2, 1 / 2, 1 / 2, 1 / 2, 1 / 2, 1 / 2, 99 / 100] (1 / 2))))) ! 1 =
     (battery_device 70)\<lparr>device_id := ''device_b''\<rparr> \<and>
   subseq [''device_a'', ''device_c''] [''device_a'', ''device_b'', ''device_c'']"
proof -
  let ?a = "(battery_device 80)\<lparr>device_id := ''device_a''\<rparr>"
  let ?b = "(battery_device 70)\<lparr>device_id := ''device_b''\<rparr>"
  let ?c = "(battery_device 60)\<lparr>device_id := ''device_c''\<rparr>"
  let ?w = "initial_world (stream_of [1 / 2, 1 / 2, 1 / 2, 1 / 2, 1 / 2, 1 / 2, 99 / 100] (1 / 2))"
  let ?x = "generate_batch [?a] ?w"
  let ?w1 = "snd (snd ?x)"
  let ?u = "fst (random ?w1)"
  let ?w2 = "snd (random ?w1)"
  let ?g = "generate_reading ?b ?w2"
  let ?y = "generate_batch [?c] ?w2"
  have "\<exists>rs. fst ?x = Inr rs \<and> map r_device_id rs = [''device_a'']"
    by (simp add: generate_batch_def run_defs)
  then obtain rs1 where x: "fst ?x = Inr rs1" "map r_device_id rs1 = [''device_a'']" by auto
  have lx: "length (fst (snd ?x)) = 1" by (simp add: generate_batch_def run_defs)
  have u: "\<not> ?u < 98 / 100" by (simp add: generate_batch_def run_defs)
  have "\<exists>rs. fst ?y = Inr rs \<and> map r_device_id rs = [''device_c'']"
    by (simp add: generate_batch_def run_defs)
  then obtain rs2 where y: "fst ?y = Inr rs2" "map r_device_id rs2 = [''device_c'']" by auto
  have 1: "?x = (Inr rs1, fst (snd ?x), ?w1)" using x(1) by (simp add: prod_eq_iff)
  have 2: "random ?w1 = (?u, ?w2)" by simp
  have 3: "?g = (fst ?g, fst (snd ?g), snd (snd ?g))" by simp
  have 4: "generate_batch [?c] (if ?u < 98 / 100 then snd (snd ?g) else ?w2) =
      (Inr rs2, fst (snd ?y), snd (snd ?y))"
    using u y(1) by (simp add: prod_eq_iff)
  have s: "subseq [''device_a'', ''device_c''] [''device_a'', ''device_b'', ''device_c'']"
    by simp
  show ?thesis using generate_batch_device [OF 1 2 3 4] u x(2) y(2) lx s by (simp add: nth_append)
qed

end
